theory Spec2Isabelle
  imports Main "HOL-Library.Multiset" "HOL-Library.Sublist"
begin

section \<open>Strings\<close>

text \<open>
  A Python \<open>str\<close> is modelled as a \<open>string\<close>: one \<open>char\<close> stands for one code point
  below 256, so the development covers titles, abstracts, author names and table keys
  drawn from Latin-1. On that range \<open>str.lower\<close> maps \<open>A\<close>..\<open>Z\<close> and the
  accented capitals 192..222 (without the multiplication sign 215) 32 places up and
  keeps the length of the string.
\<close>

definition lower_char :: "char \<Rightarrow> char" where
  "lower_char c =
     (let n = (of_char c :: nat)
      in if (65 \<le> n \<and> n \<le> 90) \<or> (192 \<le> n \<and> n \<le> 222 \<and> n \<noteq> 215)
         then char_of (n + 32) else c)"

definition lower :: "string \<Rightarrow> string" where
  "lower s = map lower_char s"

text \<open>
  \<open>str.count(sub)\<close>: the number of non-overlapping occurrences, scanning from the
  left; the empty needle is found once between any two characters and at both ends.
\<close>

function count_occ :: "string \<Rightarrow> string \<Rightarrow> nat" where
  "count_occ sub [] = 0"
| "count_occ sub (c # cs) =
     (if sub \<noteq> [] \<and> take (length sub) (c # cs) = sub
      then Suc (count_occ sub (drop (length sub) (c # cs)))
      else count_occ sub cs)"
  by pat_completeness auto
termination
  by (relation "measure (\<lambda>(sub, s). length s)") auto

definition count_str :: "string \<Rightarrow> string \<Rightarrow> nat" where
  "count_str s sub = (if sub = [] then Suc (length s) else count_occ sub s)"

section \<open>The regular expressions of the \<open>re\<close> module\<close>

text \<open>
  The program hands keywords and author fragments to \<open>re.finditer\<close> and
  \<open>re.search\<close> as patterns. The operations of the program are defined below for any
  two such functions, and what is proved about arbitrary rating tables is proved for
  all of them. This section models the two functions on a part of the pattern syntax,
  for the runs of the program on concrete entries: literal characters, \<open>.\<close>,
  alternation, capturing groups, the greedy quantifiers \<open>*\<close>, \<open>+\<close>, \<open>?\<close> on a
  single character, the word boundary and escaped punctuation. For that part the parser
  reports the errors of \<open>re.compile\<close>. A pattern that uses anything else (character
  sets, braces, anchors, lazy or possessive quantifiers, quantified groups, group
  extensions, escaped letters and digits other than the word boundary) is answered with
  \<open>NotModelled\<close>, which is no exception of the program: the model says nothing about
  such a pattern, and no run below meets one.
\<close>

datatype atom = Lit char | AnyChar

datatype quant = Once | Star | Plus | Opt

datatype item = Single atom quant | WordBoundary | Group "item list list"

type_synonym regex = "item list list"

datatype re_error =
  NothingToRepeat | MultipleRepeat | MissingParen | UnbalancedParen | BadEscape

datatype exn = ReError re_error | IndexError | NotModelled

text \<open>
  The parser reads the pattern once from the left, as \<open>re.compile\<close> does. A frame
  holds the finished alternatives and the current sequence of the group being read,
  both reversed; the stack holds the frames of the enclosing groups.
\<close>

type_synonym frame = "item list list \<times> item list"

definition close_frame :: "frame \<Rightarrow> regex" where
  "close_frame fr = rev (rev (snd fr) # fst fr)"

definition backslash :: char where
  "backslash = CHR 0x5C"

definition quant_of :: "char \<Rightarrow> quant" where
  "quant_of c = (if c = CHR ''*'' then Star else if c = CHR ''+'' then Plus else Opt)"

definition ascii_alnum :: "char \<Rightarrow> bool" where
  "ascii_alnum c =
     (let n = (of_char c :: nat)
      in (48 \<le> n \<and> n \<le> 57) \<or> (65 \<le> n \<and> n \<le> 90) \<or> (97 \<le> n \<and> n \<le> 122))"

fun parse :: "frame \<Rightarrow> frame list \<Rightarrow> string \<Rightarrow> exn + regex" where
  "parse fr stack [] =
     (if stack = [] then Inr (close_frame fr) else Inl (ReError MissingParen))"
| "parse (alts, cur) stack (c # cs) =
     (if c = CHR ''|'' then parse (rev cur # alts, []) stack cs
      else if c = CHR '')'' then
        (case stack of
           [] \<Rightarrow> Inl (ReError UnbalancedParen)
         | (alts', cur') # stack' \<Rightarrow>
             parse (alts', Group (close_frame (alts, cur)) # cur') stack' cs)
      else if c = CHR ''('' then
        (if cs \<noteq> [] \<and> hd cs = CHR ''?'' then Inl NotModelled
         else parse ([], []) ((alts, cur) # stack) cs)
      else if c = CHR ''*'' \<or> c = CHR ''+'' \<or> c = CHR ''?'' then
        (case cur of
           [] \<Rightarrow> Inl (ReError NothingToRepeat)
         | WordBoundary # _ \<Rightarrow> Inl (ReError NothingToRepeat)
         | Group _ # _ \<Rightarrow> Inl NotModelled
         | Single a q # cur' \<Rightarrow>
             if q \<noteq> Once then Inl (ReError MultipleRepeat)
             else if cs \<noteq> [] \<and> (hd cs = CHR ''?'' \<or> hd cs = CHR ''+'') then Inl NotModelled
             else parse (alts, Single a (quant_of c) # cur') stack cs)
      else if c = backslash then
        (case cs of
           [] \<Rightarrow> Inl (ReError BadEscape)
         | d # ds \<Rightarrow>
             if d = CHR ''b'' then parse (alts, WordBoundary # cur) stack ds
             else if ascii_alnum d then Inl NotModelled
             else parse (alts, Single (Lit d) Once # cur) stack ds)
      else if c = CHR ''['' \<or> c = CHR ''{'' \<or> c = CHR ''^'' \<or> c = CHR ''$'' then Inl NotModelled
      else if c = CHR ''.'' then parse (alts, Single AnyChar Once # cur) stack cs
      else parse (alts, Single (Lit c) Once # cur) stack cs)"

definition re_compile :: "string \<Rightarrow> exn + regex" where
  "re_compile pattern = parse ([], []) [] pattern"

text \<open>
  Matching. \<open>\w\<close> is the Unicode word class of \<open>re\<close> on \<open>str\<close> patterns,
  restricted to the code points below 256. With \<open>IGNORECASE\<close> a literal matches a
  character of the same lower case.
\<close>

definition is_word :: "char \<Rightarrow> bool" where
  "is_word c =
     (let n = (of_char c :: nat)
      in (48 \<le> n \<and> n \<le> 57) \<or> (65 \<le> n \<and> n \<le> 90) \<or> n = 95 \<or> (97 \<le> n \<and> n \<le> 122)
         \<or> n = 170 \<or> n = 178 \<or> n = 179 \<or> n = 181 \<or> n = 185 \<or> n = 186
         \<or> (188 \<le> n \<and> n \<le> 190) \<or> (192 \<le> n \<and> n \<le> 214) \<or> (216 \<le> n \<and> n \<le> 246)
         \<or> 248 \<le> n)"

definition at_boundary :: "string \<Rightarrow> nat \<Rightarrow> bool" where
  "at_boundary s i =
     ((0 < i \<and> i \<le> length s \<and> is_word (s ! (i - 1))) \<noteq> (i < length s \<and> is_word (s ! i)))"

fun atom_matches :: "bool \<Rightarrow> atom \<Rightarrow> char \<Rightarrow> bool" where
  "atom_matches ic (Lit c) d = (if ic then lower_char c = lower_char d else c = d)"
| "atom_matches ic AnyChar d = (d \<noteq> CHR 0x0A)"

definition run :: "bool \<Rightarrow> atom \<Rightarrow> string \<Rightarrow> nat \<Rightarrow> nat" where
  "run ic a s i = length (takeWhile (atom_matches ic a) (drop i s))"

text \<open>The repetition counts a quantifier tries on a run of \<open>n\<close> matching characters,
  in the order of the backtracking matcher (greedy: the longest first).\<close>

fun quant_counts :: "quant \<Rightarrow> nat \<Rightarrow> nat list" where
  "quant_counts Once n = (if 0 < n then [1] else [])"
| "quant_counts Star n = rev [0..<Suc n]"
| "quant_counts Plus n = rev [1..<Suc n]"
| "quant_counts Opt n = rev [0..<Suc (min n 1)]"

text \<open>All the ends of a match that starts at \<open>i\<close>, in the order in which the
  backtracking matcher finds them.\<close>

fun match_item :: "bool \<Rightarrow> string \<Rightarrow> item \<Rightarrow> nat \<Rightarrow> nat list"
  and match_seq :: "bool \<Rightarrow> string \<Rightarrow> item list \<Rightarrow> nat \<Rightarrow> nat list"
  and match_alts :: "bool \<Rightarrow> string \<Rightarrow> item list list \<Rightarrow> nat \<Rightarrow> nat list" where
  "match_item ic s (Single a q) i = map (\<lambda>k. i + k) (quant_counts q (run ic a s i))"
| "match_item ic s WordBoundary i = (if at_boundary s i then [i] else [])"
| "match_item ic s (Group alts) i = match_alts ic s alts i"
| "match_seq ic s [] i = [i]"
| "match_seq ic s (it # its) i = concat (map (match_seq ic s its) (match_item ic s it i))"
| "match_alts ic s [] i = []"
| "match_alts ic s (sq # alts) i = match_seq ic s sq i @ match_alts ic s alts i"

text \<open>
  The search for the leftmost match from \<open>pos\<close>. After an empty match the scanner
  of \<open>finditer\<close> searches again from the same position and refuses an empty match
  there (\<open>must_advance\<close>).
\<close>

fun search_starts :: "bool \<Rightarrow> regex \<Rightarrow> string \<Rightarrow> nat list \<Rightarrow> (nat \<times> nat) option" where
  "search_starts ic re s [] = None"
| "search_starts ic re s (i # starts) =
     (case match_alts ic s re i of
        [] \<Rightarrow> search_starts ic re s starts
      | e # _ \<Rightarrow> Some (i, e))"

definition search_from :: "bool \<Rightarrow> regex \<Rightarrow> string \<Rightarrow> nat \<Rightarrow> bool \<Rightarrow> (nat \<times> nat) option" where
  "search_from ic re s pos must_advance =
     (case find (\<lambda>e. \<not> (must_advance \<and> e = pos)) (match_alts ic s re pos) of
        Some e \<Rightarrow> Some (pos, e)
      | None \<Rightarrow> search_starts ic re s [Suc pos..<Suc (length s)])"

lemma quant_counts_le: "k \<in> set (quant_counts q n) \<Longrightarrow> k \<le> n"
  by (cases q) (auto split: if_splits)

lemma match_ends:
  "e \<in> set (match_item ic s it i) \<Longrightarrow> i \<le> e"
  "e \<in> set (match_seq ic s its i) \<Longrightarrow> i \<le> e"
  "e \<in> set (match_alts ic s alts i) \<Longrightarrow> i \<le> e"
proof (induction ic s it i and ic s its i and ic s alts i arbitrary: e and e and e
    rule: match_item_match_seq_match_alts.induct)
  case (5 ic s it its i)
  from "5.prems" obtain m where m: "m \<in> set (match_item ic s it i)"
    and e: "e \<in> set (match_seq ic s its m)"
    by auto
  from "5.IH"(1) [OF m] "5.IH"(2) [OF m e] show ?case
    by simp
qed (auto split: if_splits)

lemma search_starts_ends:
  "search_starts ic re s starts = Some (i, e) \<Longrightarrow> i \<in> set starts \<and> i \<le> e"
proof (induction starts)
  case Nil
  then show ?case by simp
next
  case (Cons j starts)
  show ?case
  proof (cases "match_alts ic s re j")
    case Nil
    with Cons show ?thesis by simp
  next
    case (Cons e' es)
    with Cons.prems have "i = j" "e = e'" by simp_all
    moreover from Cons have "e' \<in> set (match_alts ic s re j)" by simp
    ultimately show ?thesis using match_ends(3) by auto
  qed
qed

lemma search_from_ends:
  assumes "search_from ic re s pos adv = Some (i, e)"
  shows "pos \<le> i \<and> i \<le> e \<and> (adv \<longrightarrow> pos < e)"
proof (cases "find (\<lambda>e. \<not> (adv \<and> e = pos)) (match_alts ic s re pos)")
  case None
  with assms have "search_starts ic re s [Suc pos..<Suc (length s)] = Some (i, e)"
    by (simp add: search_from_def)
  from search_starts_ends [OF this] show ?thesis by auto
next
  case (Some e')
  with assms have ie: "i = pos" "e = e'"
    by (simp_all add: search_from_def)
  from Some have "e' \<in> set (match_alts ic s re pos)" "\<not> (adv \<and> e' = pos)"
    by (auto simp: find_Some_iff)
  with ie match_ends(3) [of e' ic s re pos] show ?thesis
    by auto
qed

text \<open>
  The scanner behind \<open>re.finditer\<close>: every match is searched from the end of the one
  before, and an empty match makes the next search advance.
\<close>

function scan :: "bool \<Rightarrow> regex \<Rightarrow> string \<Rightarrow> nat \<Rightarrow> bool \<Rightarrow> (nat \<times> nat) list" where
  "scan ic re s pos must_advance =
     (if length s < pos then []
      else case search_from ic re s pos must_advance of
             None \<Rightarrow> []
           | Some (i, e) \<Rightarrow> (i, e) # scan ic re s e (e = i))"
  by pat_completeness auto
termination
proof (relation "measure (\<lambda>(ic, re, s, pos, adv). 2 * (Suc (length s) - pos) + (if adv then 0 else 1))",
    goal_cases)
  case 1
  show ?case by simp
next
  case (2 ic re s pos must_advance x2 i e)
  then have "search_from ic re s pos must_advance = Some (i, e)"
    by simp
  from search_from_ends [OF this] 2(1) show ?case
    by (auto split: if_splits)
qed

text \<open>\<open>[(m.start(), m.end()) for m in re.finditer(pattern, s)]\<close>; the pattern is
  compiled first, and a pattern that does not compile raises.\<close>

definition re_finditer :: "string \<Rightarrow> string \<Rightarrow> exn + (nat \<times> nat) list" where
  "re_finditer pattern s =
     (case re_compile pattern of
        Inl err \<Rightarrow> Inl err
      | Inr re \<Rightarrow> Inr (scan False re s 0 False))"

text \<open>\<open>re.search(pattern, s, flags=re.IGNORECASE)\<close>: the span of the leftmost match,
  or \<open>None\<close>.\<close>

definition re_search_ignorecase :: "string \<Rightarrow> string \<Rightarrow> exn + (nat \<times> nat) option" where
  "re_search_ignorecase pattern s =
     (case re_compile pattern of
        Inl err \<Rightarrow> Inl err
      | Inr re \<Rightarrow> Inr (search_from True re s 0 False))"

section \<open>Entries\<close>

text \<open>
  The class \<open>Entry\<close> of \<open>entry_evaluation.py\<close>. Python integers are unbounded, so
  ratings, weights and title positions are \<open>int\<close>. A \<open>datetime\<close> is kept as a number
  of seconds; the program only stores it. A method that mutates \<open>self\<close> takes the entry
  and returns the entry it leaves behind; a method that can raise returns what it
  raised (or its value) together with the entry as it was at that moment.
\<close>

type_synonym datetime = int

record entry =
  entry_id :: string
  title :: string
  authors :: "string list"
  abstract :: string
  category :: string
  date_submitted :: datetime
  date_updated :: datetime
  title_marks :: "int list"
  author_marks :: "bool list"
  rating :: int

definition Entry_init ::
  "string \<Rightarrow> string \<Rightarrow> string list \<Rightarrow> string \<Rightarrow> datetime \<Rightarrow> datetime \<Rightarrow> string \<Rightarrow> int option
    \<Rightarrow> entry" where
  "Entry_init ident ttl auths abstr submitted updated categ number =
     \<lparr> entry_id = ident, title = ttl, authors = auths, abstract = abstr, category = categ,
       date_submitted = submitted, date_updated = updated,
       title_marks = [], author_marks = replicate (length auths) False, rating = - 1 \<rparr>"

type_synonym 'a outcome = "(exn + 'a) \<times> entry"

text \<open>Sequencing of two steps on the same entry: a raise ends the run.\<close>

definition and_then :: "'a outcome \<Rightarrow> ('a \<Rightarrow> entry \<Rightarrow> 'b outcome) \<Rightarrow> 'b outcome" where
  "and_then m f = (case m of (Inl err, e) \<Rightarrow> (Inl err, e) | (Inr v, e) \<Rightarrow> f v e)"

definition mark_title_position :: "int \<Rightarrow> entry \<Rightarrow> entry" where
  "mark_title_position position e = e\<lparr>title_marks := title_marks e @ [position]\<rparr>"

text \<open>The two inner loops of \<open>mark_title_keyword\<close>: every position of every span
  \<open>(s, e)\<close> of \<open>zip(starts, ends)\<close> is marked.\<close>

definition mark_span :: "nat \<times> nat \<Rightarrow> entry \<Rightarrow> entry" where
  "mark_span se e = fold (\<lambda>pos. mark_title_position (int pos)) [fst se..<snd se] e"

definition mark_spans :: "(nat \<times> nat) list \<Rightarrow> entry \<Rightarrow> entry" where
  "mark_spans spans e = fold mark_span spans e"

text \<open>
  The two functions of the \<open>re\<close> module that the program calls. The operations below
  take them as parameters: \<open>finditer pattern s\<close> stands for
  \<open>[(m.start(), m.end()) for m in re.finditer(pattern, s)]\<close> and \<open>search pattern s\<close>
  for the span of \<open>re.search(pattern, s, flags=re.IGNORECASE)\<close>, each with the exception
  the call raises instead. Every statement below about arbitrary rating tables is proved
  for every pair of such functions; \<open>re_finditer\<close> and \<open>re_search_ignorecase\<close> stand in
  for them in the runs on concrete entries.
\<close>

type_synonym finditer = "string \<Rightarrow> string \<Rightarrow> exn + (nat \<times> nat) list"

type_synonym search = "string \<Rightarrow> string \<Rightarrow> exn + (nat \<times> nat) option"

text \<open>The outer loop \<open>for _ in range(counts)\<close>: each round calls \<open>re.finditer\<close>
  twice, for the starts and for the ends.\<close>

fun mark_rounds :: "finditer \<Rightarrow> nat \<Rightarrow> string \<Rightarrow> entry \<Rightarrow> unit outcome" where
  "mark_rounds finditer 0 keyword e = (Inr (), e)"
| "mark_rounds finditer (Suc n) keyword e =
     (case finditer keyword (lower (title e)) of
        Inl err \<Rightarrow> (Inl err, e)
      | Inr ms1 \<Rightarrow>
          (case finditer keyword (lower (title e)) of
             Inl err \<Rightarrow> (Inl err, e)
           | Inr ms2 \<Rightarrow>
               mark_rounds finditer n keyword (mark_spans (zip (map fst ms1) (map snd ms2)) e)))"

definition mark_title_keyword :: "finditer \<Rightarrow> string \<Rightarrow> entry \<Rightarrow> unit outcome" where
  "mark_title_keyword finditer keyword e =
     (let counts = count_str (lower (title e)) keyword
      in mark_rounds finditer counts keyword e)"

text \<open>\<open>self.author_marks[number] = True\<close>: a negative index counts from the end, an
  index out of range raises.\<close>

definition mark_author :: "int \<Rightarrow> entry \<Rightarrow> unit outcome" where
  "mark_author number e =
     (let n = int (length (author_marks e));
          j = (if number < 0 then n + number else number)
      in if 0 \<le> j \<and> j < n
         then (Inr (), e\<lparr>author_marks := (author_marks e)[nat j := True]\<rparr>)
         else (Inl IndexError, e))"

text \<open>
  A rating table is a \<open>dict\<close> from strings to integers, read by \<open>items()\<close> in the
  order of insertion: a list of pairs whose keys are distinct.
\<close>

type_synonym ratings = "(string \<times> int) list"

text \<open>The first loop of \<open>evaluate\<close>, over the keywords.\<close>

fun eval_keywords :: "finditer \<Rightarrow> ratings \<Rightarrow> bool \<Rightarrow> entry \<Rightarrow> unit outcome" where
  "eval_keywords finditer [] rate_abstract e = (Inr (), e)"
| "eval_keywords finditer ((keyword, w) # rest) rate_abstract e =
     (let keyword = lower keyword;
          counts = count_str (lower (title e)) keyword
      in and_then
           (if 0 < counts
            then and_then (mark_title_keyword finditer keyword e)
                   (\<lambda>_ e'. (Inr (), e'\<lparr>rating := rating e' + int counts * w\<rparr>))
            else (Inr (), e))
           (\<lambda>_ e1.
              eval_keywords finditer rest rate_abstract
                (if rate_abstract
                 then e1\<lparr>rating := rating e1 + int (count_str (lower (abstract e1)) keyword) * w\<rparr>
                 else e1)))"

text \<open>The pattern \<open>r'\b{}\b'.format(author)\<close>.\<close>

definition word_pattern :: "string \<Rightarrow> string" where
  "word_pattern author = [backslash, CHR ''b''] @ author @ [backslash, CHR ''b'']"

text \<open>The inner loop over \<open>enumerate(self.authors)\<close> for one author fragment.\<close>

fun eval_author ::
  "search \<Rightarrow> string \<Rightarrow> int \<Rightarrow> (nat \<times> string) list \<Rightarrow> entry \<Rightarrow> unit outcome" where
  "eval_author search author w [] e = (Inr (), e)"
| "eval_author search author w ((i, a) # rest) e =
     (case search (word_pattern author) a of
        Inl err \<Rightarrow> (Inl err, e)
      | Inr None \<Rightarrow> eval_author search author w rest e
      | Inr (Some m) \<Rightarrow>
          and_then (mark_author (int i) e)
            (\<lambda>_ e'. eval_author search author w rest (e'\<lparr>rating := rating e' + w\<rparr>)))"

text \<open>The second loop of \<open>evaluate\<close>, over the author fragments.\<close>

fun eval_authors :: "search \<Rightarrow> ratings \<Rightarrow> entry \<Rightarrow> unit outcome" where
  "eval_authors search [] e = (Inr (), e)"
| "eval_authors search ((author, w) # rest) e =
     and_then (eval_author search author w (enumerate 0 (authors e)) e)
       (\<lambda>_ e'. eval_authors search rest e')"

definition evaluate ::
  "finditer \<Rightarrow> search \<Rightarrow> ratings \<Rightarrow> ratings \<Rightarrow> bool \<Rightarrow> entry \<Rightarrow> int outcome" where
  "evaluate finditer search keyword_ratings author_ratings rate_abstract e =
     and_then (eval_keywords finditer keyword_ratings rate_abstract (e\<lparr>rating := 0\<rparr>))
       (\<lambda>_ e1. and_then (eval_authors search author_ratings e1)
          (\<lambda>_ e2. (Inr (rating e2), e2)))"

text \<open>\<open>evaluate_entries\<close> evaluates the entries in order and returns the list; a raise
  leaves the entries after the raising one untouched.\<close>

fun evaluate_entries ::
  "finditer \<Rightarrow> search \<Rightarrow> entry list \<Rightarrow> ratings \<Rightarrow> ratings \<Rightarrow> bool
    \<Rightarrow> (exn + unit) \<times> entry list" where
  "evaluate_entries finditer search [] keyword_ratings author_ratings rate_abstract = (Inr (), [])"
| "evaluate_entries finditer search (e # es) keyword_ratings author_ratings rate_abstract =
     (case evaluate finditer search keyword_ratings author_ratings rate_abstract e of
        (Inl err, e') \<Rightarrow> (Inl err, e' # es)
      | (Inr _, e') \<Rightarrow>
          (case evaluate_entries finditer search es keyword_ratings author_ratings rate_abstract of
             (r, es') \<Rightarrow> (r, e' # es')))"

section \<open>Ranking\<close>

text \<open>
  \<open>sorted(xs, key=key, reverse=reverse)\<close> is a stable sort; with \<open>reverse\<close> the list
  is reversed, sorted and reversed again, which keeps entries of equal key in their
  order. \<open>xs[:n]\<close> takes the first \<open>n\<close> elements, all without a bound, and counts a
  negative \<open>n\<close> from the end.
\<close>

definition sorted_py :: "('a \<Rightarrow> int) \<Rightarrow> bool \<Rightarrow> 'a list \<Rightarrow> 'a list" where
  "sorted_py key reverse xs = (if reverse then rev (sort_key key (rev xs)) else sort_key key xs)"

definition slice_to :: "'a list \<Rightarrow> int option \<Rightarrow> 'a list" where
  "slice_to xs bound =
     (case bound of
        None \<Rightarrow> xs
      | Some n \<Rightarrow> if 0 \<le> n then take (nat n) xs else take (nat (int (length xs) + n)) xs)"

definition sort_entries :: "entry list \<Rightarrow> int \<Rightarrow> bool \<Rightarrow> int option \<Rightarrow> entry list" where
  "sort_entries entries rating_min reverse len =
     (let len = (if len \<noteq> None \<and> the len < 0 then None else len);
          entries_filtered = filter (\<lambda>entry. rating_min \<le> rating entry) entries;
          results = sorted_py rating (\<not> reverse) entries_filtered
      in slice_to results len)"

section \<open>Relations between entries, and sample entries\<close>

text \<open>
  \<open>same_input\<close> holds of two entries with the same bibliographic fields and the same
  number of author flags; \<open>grows\<close> holds when moreover the second has the title marks of
  the first and possibly more after them, and every author flag that the first has set.
\<close>

definition same_input :: "entry \<Rightarrow> entry \<Rightarrow> bool" where
  "same_input e e' \<longleftrightarrow>
     entry_id e' = entry_id e \<and> title e' = title e \<and> authors e' = authors e \<and>
     abstract e' = abstract e \<and> category e' = category e \<and>
     date_submitted e' = date_submitted e \<and> date_updated e' = date_updated e \<and>
     length (author_marks e') = length (author_marks e)"

definition grows :: "entry \<Rightarrow> entry \<Rightarrow> bool" where
  "grows e e' \<longleftrightarrow>
     same_input e e' \<and> prefix (title_marks e) (title_marks e') \<and>
     list_all2 (\<lambda>m m'. m \<longrightarrow> m') (author_marks e) (author_marks e')"

text \<open>
  Two entries are \<open>alike\<close> when they differ in their marks only. Two runs, from the
  entries \<open>e\<close> and \<open>e'\<close>, are \<open>in_step\<close> when they end with the same outcome in entries
  that are alike and \<open>ahead\<close> of \<open>e\<close> and \<open>e'\<close> by the same marks: the same title
  positions appended and the same author flags set.
\<close>

definition alike :: "entry \<Rightarrow> entry \<Rightarrow> bool" where
  "alike e e' \<longleftrightarrow> same_input e e' \<and> rating e' = rating e"

definition ahead :: "entry \<Rightarrow> entry \<Rightarrow> entry \<Rightarrow> entry \<Rightarrow> bool" where
  "ahead e e' u u' \<longleftrightarrow>
     (\<exists>ms. title_marks u = title_marks e @ ms \<and> title_marks u' = title_marks e' @ ms) \<and>
     (\<exists>bs. length bs = length (author_marks e) \<and>
        author_marks u = map2 (\<or>) (author_marks e) bs \<and>
        author_marks u' = map2 (\<or>) (author_marks e') bs)"

definition in_step :: "entry \<Rightarrow> entry \<Rightarrow> 'a outcome \<Rightarrow> 'a outcome \<Rightarrow> bool" where
  "in_step e e' r r' \<longleftrightarrow> fst r' = fst r \<and> alike (snd r) (snd r') \<and> ahead e e' (snd r) (snd r')"

text \<open>The entry with its annotations as the constructor sets them.\<close>

definition unmarked :: "entry \<Rightarrow> entry" where
  "unmarked e =
     e\<lparr>title_marks := [], author_marks := replicate (length (author_marks e)) False,
       rating := - 1\<rparr>"

text \<open>The test of the author loop: the call returns a match.\<close>

definition author_matches :: "search \<Rightarrow> string \<Rightarrow> string \<Rightarrow> bool" where
  "author_matches search author a =
     (case search (word_pattern author) a of
        Inr (Some m) \<Rightarrow> True
      | _ \<Rightarrow> False)"

text \<open>
  The author test in the words of the specification: the fragment occurs in the name,
  letter case ignored, with a word boundary on both sides.
\<close>

definition occurs_as_whole_word :: "string \<Rightarrow> string \<Rightarrow> bool" where
  "occurs_as_whole_word fragment name =
     list_ex
       (\<lambda>i. take (length fragment) (drop i (lower name)) = lower fragment \<and>
            at_boundary name i \<and> at_boundary name (i + length fragment))
       [0..<Suc (length name)]"

text \<open>The invariant of the constructor: one author flag per author.\<close>

definition author_invariant :: "entry \<Rightarrow> bool" where
  "author_invariant e \<longleftrightarrow> length (author_marks e) = length (authors e)"

text \<open>Sample entries, in the state the constructor leaves them in.\<close>

definition scenario :: entry where
  "scenario = Entry_init ''2101.00001'' ''AI research on AI systems''
     [''John Smith'', ''Jane Doe''] ''We study learning.'' 0 0 ''cs.LG'' None"

definition paper :: "int \<Rightarrow> entry" where
  "paper r = (Entry_init ''2101.00001'' ''A paper'' [] ''An abstract'' 0 0 ''cs.LG'' None)\<lparr>rating := r\<rparr>"

definition gravity :: entry where
  "gravity = Entry_init ''2101.00002'' ''f(R) gravity'' [''Jane Doe'']
     ''Modified gravity.'' 0 0 ''gr-qc'' None"

definition algebras :: entry where
  "algebras = Entry_init ''2101.00003'' ''C*-algebras'' [''Jane Doe'']
     ''Operator algebras.'' 0 0 ''math.OA'' None"

definition survey :: entry where
  "survey = Entry_init ''2101.00004'' ''A survey'' [''Al Smith'']
     ''A survey.'' 0 0 ''cs.DL'' None"

section \<open>What every operation leaves alone\<close>

text \<open>
  No operation of the program writes the bibliographic fields of an entry or changes
  the number of author flags; the marking operations only append title positions and
  only ever set author flags.
\<close>

lemma grows_refl: "grows e e"
  by (simp add: grows_def same_input_def list_all2_refl)

lemma grows_trans: "grows e1 e2 \<Longrightarrow> grows e2 e3 \<Longrightarrow> grows e1 e3"
  unfolding grows_def same_input_def
  by (auto elim: prefix_order.trans list_all2_trans [rotated])

lemma grows_rating: "grows e e' \<Longrightarrow> grows e (e'\<lparr>rating := r\<rparr>)"
  by (simp add: grows_def same_input_def)

lemma grows_mark_title_position: "grows e (mark_title_position p e)"
  by (simp add: grows_def same_input_def mark_title_position_def list_all2_refl)

lemma grows_fold:
  assumes "\<And>x e. grows e (f x e)"
  shows "grows e (fold f xs e)"
proof (induction xs arbitrary: e)
  case Nil
  show ?case by (simp add: grows_refl)
next
  case (Cons x xs)
  have "grows e (f x e)" by (rule assms)
  also have "grows (f x e) (fold f xs (f x e))" by (rule Cons.IH)
  finally (grows_trans) show ?case by simp
qed

lemma grows_mark_span: "grows e (mark_span se e)"
  unfolding mark_span_def by (rule grows_fold) (rule grows_mark_title_position)

lemma grows_mark_spans: "grows e (mark_spans spans e)"
  unfolding mark_spans_def by (rule grows_fold) (rule grows_mark_span)

lemma grows_mark_rounds: "grows e (snd (mark_rounds finditer n keyword e))"
proof (induction n arbitrary: e)
  case 0
  show ?case by (simp add: grows_refl)
next
  case (Suc n)
  show ?case
    by (auto simp: grows_refl split: sum.splits
        intro: grows_trans [OF grows_mark_spans Suc.IH])
qed

lemma grows_mark_title_keyword: "grows e (snd (mark_title_keyword finditer keyword e))"
  by (simp add: mark_title_keyword_def grows_mark_rounds)

lemma grows_mark_author: "grows e (snd (mark_author number e))"
  by (auto simp: mark_author_def Let_def grows_def same_input_def list_all2_conv_all_nth
      nth_list_update)

lemma grows_and_then:
  assumes "grows e (snd m)" and "\<And>v e1. grows e1 (snd (f v e1))"
  shows "grows e (snd (and_then m f))"
proof (cases m)
  case (Pair r e1)
  show ?thesis
  proof (cases r)
    case (Inl err)
    with Pair assms(1) show ?thesis by (simp add: and_then_def)
  next
    case (Inr v)
    with Pair have "snd (and_then m f) = snd (f v e1)" by (simp add: and_then_def)
    with grows_trans [OF _ assms(2) [of e1 v]] assms(1) Pair show ?thesis by simp
  qed
qed

lemma grows_eval_keywords: "grows e (snd (eval_keywords finditer kws rate_abstract e))"
proof (induction kws arbitrary: e)
  case Nil
  show ?case by (simp add: grows_refl)
next
  case (Cons kw kws)
  obtain keyword w where kw: "kw = (keyword, w)" by (cases kw)
  show ?case
    unfolding kw eval_keywords.simps Let_def
  proof (rule grows_and_then, goal_cases)
    case 1
    show ?case
      by (auto simp: grows_refl grows_rating intro!: grows_and_then grows_mark_title_keyword)
  next
    case (2 v e1)
    have "grows e1 (if rate_abstract
        then e1\<lparr>rating := rating e1 + int (count_str (lower (abstract e1)) (lower keyword)) * w\<rparr>
        else e1)"
      by (simp add: grows_refl grows_rating)
    from grows_trans [OF this Cons.IH] show ?case .
  qed
qed

lemma grows_eval_author: "grows e (snd (eval_author search author w ias e))"
proof (induction ias arbitrary: e)
  case Nil
  show ?case by (simp add: grows_refl)
next
  case (Cons ia ias)
  obtain i a where ia: "ia = (i, a)" by (cases ia)
  have step: "grows e1 (snd (eval_author search author w ias (e1\<lparr>rating := rating e1 + w\<rparr>)))" for e1
    using grows_trans [OF grows_rating [OF grows_refl] Cons.IH] .
  show ?case
    unfolding ia
    by (auto simp: Cons.IH grows_refl split: sum.splits option.splits
        intro!: grows_and_then grows_mark_author step)
qed

lemma grows_eval_authors: "grows e (snd (eval_authors search auths e))"
proof (induction auths arbitrary: e)
  case Nil
  show ?case by (simp add: grows_refl)
next
  case (Cons aw auths)
  obtain author w where aw: "aw = (author, w)" by (cases aw)
  show ?case
    unfolding aw eval_authors.simps
    by (rule grows_and_then) (rule grows_eval_author, rule Cons.IH)
qed

lemma grows_evaluate:
  "grows (e\<lparr>rating := 0\<rparr>) (snd (evaluate finditer search keyword_ratings author_ratings rate_abstract e))"
  unfolding evaluate_def
  by (intro grows_and_then grows_eval_keywords grows_eval_authors) (simp add: grows_refl)

section \<open>Evaluation that returns\<close>

lemma grows_title: "grows e e' \<Longrightarrow> title e' = title e"
  and grows_abstract: "grows e e' \<Longrightarrow> abstract e' = abstract e"
  and grows_authors: "grows e e' \<Longrightarrow> authors e' = authors e"
  and grows_length_marks: "grows e e' \<Longrightarrow> length (author_marks e') = length (author_marks e)"
  by (simp_all add: grows_def same_input_def)

lemma mark_title_position_fields:
  "rating (mark_title_position p e) = rating e"
  "author_marks (mark_title_position p e) = author_marks e"
  by (simp_all add: mark_title_position_def)

lemma fold_keeps:
  assumes "\<And>x e. g (f x e) = g e"
  shows "g (fold f xs e) = g e"
  by (induction xs arbitrary: e) (simp_all add: assms)

lemma mark_spans_fields:
  "rating (mark_spans spans e) = rating e"
  "author_marks (mark_spans spans e) = author_marks e"
  unfolding mark_spans_def mark_span_def
  by (intro fold_keeps mark_title_position_fields)+

lemma mark_rounds_fields:
  "rating (snd (mark_rounds finditer n keyword e)) = rating e"
  "author_marks (snd (mark_rounds finditer n keyword e)) = author_marks e"
  by (induction n arbitrary: e) (simp_all add: mark_spans_fields split: sum.splits)

lemma mark_rounds_returns:
  "\<not> isl (finditer keyword (lower (title e))) \<Longrightarrow>
   fst (mark_rounds finditer n keyword e) = Inr ()"
proof (induction n arbitrary: e)
  case 0
  show ?case by simp
next
  case (Suc n)
  from Suc.prems obtain ms where ms: "finditer keyword (lower (title e)) = Inr ms"
    by (cases "finditer keyword (lower (title e))") auto
  let ?e = "mark_spans (zip (map fst ms) (map snd ms)) e"
  have "title ?e = title e"
    by (rule grows_title) (rule grows_mark_spans)
  with Suc.prems have "\<not> isl (finditer keyword (lower (title ?e)))"
    by simp
  from Suc.IH [OF this] show ?case
    by (simp add: ms)
qed

lemma eval_keywords_returns:
  assumes "\<forall>(k, w) \<in> set kws.
      0 < count_str (lower (title e)) (lower k) \<longrightarrow>
      \<not> isl (finditer (lower k) (lower (title e)))"
  shows "fst (eval_keywords finditer kws rate_abstract e) = Inr ()
    \<and> rating (snd (eval_keywords finditer kws rate_abstract e))
        = rating e + (\<Sum>(k, w) \<leftarrow> kws.
            int (count_str (lower (title e)) (lower k)) * w
            + (if rate_abstract then int (count_str (lower (abstract e)) (lower k)) * w else 0))
    \<and> author_marks (snd (eval_keywords finditer kws rate_abstract e)) = author_marks e"
  using assms
proof (induction kws arbitrary: e)
  case Nil
  show ?case by simp
next
  case (Cons kw kws)
  obtain k w where kw: "kw = (k, w)" by (cases kw)
  let ?c = "count_str (lower (title e)) (lower k)"
  define e1 where "e1 = snd (mark_title_keyword finditer (lower k) e)"
  define e2 where "e2 = (if 0 < ?c then e1\<lparr>rating := rating e1 + int ?c * w\<rparr> else e)"
  define e3 where "e3 = (if rate_abstract
      then e2\<lparr>rating := rating e2 + int (count_str (lower (abstract e2)) (lower k)) * w\<rparr> else e2)"
  have g1: "grows e e1"
    unfolding e1_def by (rule grows_mark_title_keyword)
  have r1: "rating e1 = rating e" "author_marks e1 = author_marks e"
    unfolding e1_def mark_title_keyword_def Let_def by (rule mark_rounds_fields)+
  have ok: "0 < ?c \<Longrightarrow> mark_title_keyword finditer (lower k) e = (Inr (), e1)"
    using Cons.prems mark_rounds_returns [of finditer "lower k" e ?c]
    by (auto simp: kw e1_def mark_title_keyword_def Let_def prod_eq_iff)
  have step: "eval_keywords finditer ((k, w) # kws) rate_abstract e
      = eval_keywords finditer kws rate_abstract e3"
    using ok by (simp add: Let_def and_then_def e2_def e3_def)
  have t3: "title e3 = title e" "abstract e3 = abstract e" "author_marks e3 = author_marks e"
    using g1 r1 by (auto simp: e3_def e2_def grows_title grows_abstract)
  have r3: "rating e3 = rating e + int ?c * w
      + (if rate_abstract then int (count_str (lower (abstract e)) (lower k)) * w else 0)"
    using g1 r1 by (auto simp: e3_def e2_def grows_abstract)
  have "\<forall>(k, w) \<in> set kws.
      0 < count_str (lower (title e3)) (lower k) \<longrightarrow>
      \<not> isl (finditer (lower k) (lower (title e3)))"
    using Cons.prems by (simp add: t3)
  from Cons.IH [OF this] show ?case
    unfolding kw step
    by (cases rate_abstract) (simp_all add: t3 r3)
qed

lemma mark_author_in_range:
  "i < length (author_marks e) \<Longrightarrow>
   mark_author (int i) e = (Inr (), e\<lparr>author_marks := (author_marks e)[i := True]\<rparr>)"
  by (simp add: mark_author_def Let_def)

lemma author_matches_search:
  "author_matches search author a \<Longrightarrow> \<exists>m. search (word_pattern author) a = Inr (Some m)"
  by (auto simp: author_matches_def split: sum.splits option.splits)

lemma no_author_match_search:
  "\<not> isl (search (word_pattern author) a) \<Longrightarrow> \<not> author_matches search author a \<Longrightarrow>
   search (word_pattern author) a = Inr None"
  by (cases "search (word_pattern author) a")
    (auto simp: author_matches_def split: option.splits)

lemma eval_author_returns:
  assumes "\<forall>(i, a) \<in> set ias. \<not> isl (search (word_pattern author) a)"
    and "\<forall>(i, a) \<in> set ias. i < length (author_marks e)"
  shows "fst (eval_author search author w ias e) = Inr ()
    \<and> rating (snd (eval_author search author w ias e))
        = rating e + int (length (filter (\<lambda>(i, a). author_matches search author a) ias)) * w
    \<and> (\<forall>j < length (author_marks e).
          author_marks (snd (eval_author search author w ias e)) ! j
            = (author_marks e ! j \<or> (\<exists>a. (j, a) \<in> set ias \<and> author_matches search author a)))"
  using assms
proof (induction ias arbitrary: e)
  case Nil
  show ?case by simp
next
  case (Cons ia ias)
  obtain i a where ia: "ia = (i, a)" by (cases ia)
  from Cons.prems have ret: "\<not> isl (search (word_pattern author) a)"
    and rets: "\<forall>(i, a) \<in> set ias. \<not> isl (search (word_pattern author) a)"
    by (simp_all add: ia)
  from Cons.prems have i: "i < length (author_marks e)" by (simp add: ia)
  show ?case
  proof (cases "author_matches search author a")
    case False
    with no_author_match_search [of search author a, OF ret]
    have step: "eval_author search author w ((i, a) # ias) e = eval_author search author w ias e"
      by simp
    from Cons.IH [of e] Cons.prems rets False show ?thesis
      by (auto simp: step ia simp del: eval_author.simps)
  next
    case True
    define e1 where "e1 = e\<lparr>author_marks := (author_marks e)[i := True], rating := rating e + w\<rparr>"
    from author_matches_search [OF True] mark_author_in_range [OF i]
    have step: "eval_author search author w ((i, a) # ias) e = eval_author search author w ias e1"
      by (auto simp: and_then_def e1_def)
    have "\<forall>(i, a) \<in> set ias. i < length (author_marks e1)"
      using Cons.prems by (simp add: e1_def)
    with Cons.IH [of e1] rets
    have IH: "fst (eval_author search author w ias e1) = Inr ()"
      "rating (snd (eval_author search author w ias e1))
        = rating e1 + int (length (filter (\<lambda>(i, a). author_matches search author a) ias)) * w"
      "\<forall>j < length (author_marks e1).
          author_marks (snd (eval_author search author w ias e1)) ! j
            = (author_marks e1 ! j \<or> (\<exists>a. (j, a) \<in> set ias \<and> author_matches search author a))"
      by simp_all
    have "author_marks (snd (eval_author search author w ias e1)) ! j
        = (author_marks e ! j
           \<or> (\<exists>a'. (j, a') \<in> set (ia # ias) \<and> author_matches search author a'))"
      if "j < length (author_marks e)" for j
      using IH(3) that True i by (auto simp: e1_def ia nth_list_update)
    with IH(1,2) True show ?thesis
      by (simp add: step ia e1_def algebra_simps del: eval_author.simps)
  qed
qed

lemma enumerate_filter_length:
  "length (filter (\<lambda>(i, a). P a) (enumerate n xs)) = length (filter P xs)"
  by (induction xs arbitrary: n) simp_all

lemma eval_authors_returns:
  assumes "\<forall>(a, w) \<in> set auths. \<forall>name \<in> set (authors e). \<not> isl (search (word_pattern a) name)"
    and "length (author_marks e) = length (authors e)"
  shows "fst (eval_authors search auths e) = Inr ()
    \<and> rating (snd (eval_authors search auths e))
        = rating e
          + (\<Sum>(a, w) \<leftarrow> auths. int (length (filter (author_matches search a) (authors e))) * w)
    \<and> (\<forall>j < length (authors e).
          author_marks (snd (eval_authors search auths e)) ! j
            = (author_marks e ! j
               \<or> (\<exists>(a, w) \<in> set auths. author_matches search a (authors e ! j))))"
  using assms
proof (induction auths arbitrary: e)
  case Nil
  show ?case by simp
next
  case (Cons aw auths)
  obtain a w where aw: "aw = (a, w)" by (cases aw)
  let ?ias = "enumerate 0 (authors e)"
  define r1 where "r1 = eval_author search a w ?ias e"
  define e1 where "e1 = snd r1"
  have "\<forall>(i, a') \<in> set ?ias. \<not> isl (search (word_pattern a) a')"
    using Cons.prems(1) by (auto simp: aw in_set_enumerate_eq)
  moreover have "\<forall>(i, a) \<in> set ?ias. i < length (author_marks e)"
    using Cons.prems(2) by (auto simp: in_set_enumerate_eq)
  ultimately have one: "fst r1 = Inr ()"
    "rating e1
      = rating e + int (length (filter (\<lambda>(i, a'). author_matches search a a') ?ias)) * w"
    "\<forall>j < length (author_marks e).
        author_marks e1 ! j
          = (author_marks e ! j \<or> (\<exists>a'. (j, a') \<in> set ?ias \<and> author_matches search a a'))"
    using eval_author_returns [of ?ias search a e w] by (simp_all add: r1_def e1_def)
  have g: "grows e e1"
    unfolding e1_def r1_def by (rule grows_eval_author)
  have r1: "r1 = (Inr (), e1)"
    using one(1) by (simp add: e1_def prod_eq_iff)
  have step: "eval_authors search ((a, w) # auths) e = eval_authors search auths e1"
    using r1 by (simp add: and_then_def r1_def)
  have a1: "authors e1 = authors e" "length (author_marks e1) = length (authors e1)"
    using g Cons.prems(2) by (simp_all add: grows_authors grows_length_marks)
  have m1: "author_marks e1 ! j = (author_marks e ! j \<or> author_matches search a (authors e ! j))"
    if "j < length (authors e)" for j
    using one(3) that Cons.prems(2) by (auto simp: in_set_enumerate_eq)
  have "\<forall>(a, w) \<in> set auths. \<forall>name \<in> set (authors e1). \<not> isl (search (word_pattern a) name)"
    using Cons.prems(1) by (simp add: a1)
  from Cons.IH [OF this a1(2)]
  have IH: "fst (eval_authors search auths e1) = Inr ()"
    "rating (snd (eval_authors search auths e1))
      = rating e1
        + (\<Sum>(a, w) \<leftarrow> auths. int (length (filter (author_matches search a) (authors e))) * w)"
    "\<forall>j < length (authors e).
        author_marks (snd (eval_authors search auths e1)) ! j
          = (author_marks e1 ! j
             \<or> (\<exists>(a, w) \<in> set auths. author_matches search a (authors e ! j)))"
    by (simp_all add: a1)
  have "author_marks (snd (eval_authors search auths e1)) ! j
      = (author_marks e ! j
         \<or> (\<exists>(a, w) \<in> set (aw # auths). author_matches search a (authors e ! j)))"
    if "j < length (authors e)" for j
    using IH(3) m1 that by (auto simp: aw)
  with IH(1,2) one(2) show ?case
    unfolding aw step by (simp add: enumerate_filter_length aw)
qed

text \<open>
  C1 (as amended). Take an entry with one author flag per author, and rating tables on
  which \<open>re\<close> raises nothing: \<open>re.finditer\<close> returns for every keyword that occurs in the
  title, and \<open>re.search\<close> returns for every author fragment on every author name. Then
  \<open>evaluate\<close> returns the rating it has stored in the entry, and this rating is the
  sum over the keywords of (occurrences of the lowered keyword in the lowered title)
  times weight, plus (occurrences in the lowered abstract) times weight when
  \<open>rate_abstract\<close> is set, plus, over the author fragments, the weight once for every
  author in whose name \<open>re.search\<close> finds the pattern \<open>\b\<close> fragment \<open>\b\<close>, letter case
  ignored; afterwards an author is marked exactly when it was marked before the call or
  some fragment was found in its name.
\<close>

theorem evaluate_rating:
  assumes "length (author_marks e) = length (authors e)"
    and "\<forall>(k, w) \<in> set keyword_ratings.
      0 < count_str (lower (title e)) (lower k) \<longrightarrow>
      \<not> isl (finditer (lower k) (lower (title e)))"
    and "\<forall>(a, w) \<in> set author_ratings.
      \<forall>name \<in> set (authors e). \<not> isl (search (word_pattern a) name)"
  shows "fst (evaluate finditer search keyword_ratings author_ratings rate_abstract e)
      = Inr (rating (snd (evaluate finditer search keyword_ratings author_ratings rate_abstract e)))
    \<and> rating (snd (evaluate finditer search keyword_ratings author_ratings rate_abstract e))
      = (\<Sum>(k, w) \<leftarrow> keyword_ratings.
            int (count_str (lower (title e)) (lower k)) * w
            + (if rate_abstract then int (count_str (lower (abstract e)) (lower k)) * w else 0))
        + (\<Sum>(a, w) \<leftarrow> author_ratings.
            int (length (filter (author_matches search a) (authors e))) * w)
    \<and> length (author_marks
          (snd (evaluate finditer search keyword_ratings author_ratings rate_abstract e)))
      = length (authors e)
    \<and> (\<forall>j < length (authors e).
          author_marks
            (snd (evaluate finditer search keyword_ratings author_ratings rate_abstract e)) ! j
            = (author_marks e ! j
               \<or> (\<exists>(a, w) \<in> set author_ratings. author_matches search a (authors e ! j))))"
proof -
  let ?e0 = "e\<lparr>rating := 0\<rparr>"
  define r1 where "r1 = eval_keywords finditer keyword_ratings rate_abstract ?e0"
  define e1 where "e1 = snd r1"
  define r2 where "r2 = eval_authors search author_ratings e1"
  define e2 where "e2 = snd r2"
  have k: "fst r1 = Inr ()"
    "rating e1 = (\<Sum>(k, w) \<leftarrow> keyword_ratings.
            int (count_str (lower (title e)) (lower k)) * w
            + (if rate_abstract then int (count_str (lower (abstract e)) (lower k)) * w else 0))"
    "author_marks e1 = author_marks e"
    using eval_keywords_returns [of keyword_ratings ?e0 finditer rate_abstract] assms(2)
    by (simp_all add: r1_def e1_def cong: if_cong)
  have g1: "grows ?e0 e1"
    unfolding e1_def r1_def by (rule grows_eval_keywords)
  then have a1: "authors e1 = authors e"
    by (simp add: grows_authors [OF g1])
  have "\<forall>(a, w) \<in> set author_ratings.
      \<forall>name \<in> set (authors e1). \<not> isl (search (word_pattern a) name)"
    using assms(3) by (simp add: a1)
  moreover have "length (author_marks e1) = length (authors e1)"
    using assms(1) by (simp add: a1 k(3))
  ultimately have a: "fst r2 = Inr ()"
    "rating e2 = rating e1 + (\<Sum>(a, w) \<leftarrow> author_ratings.
        int (length (filter (author_matches search a) (authors e))) * w)"
    "\<forall>j < length (authors e). author_marks e2 ! j
        = (author_marks e ! j
           \<or> (\<exists>(a, w) \<in> set author_ratings. author_matches search a (authors e ! j)))"
    using eval_authors_returns [of author_ratings e1 search]
    by (simp_all add: r2_def e2_def a1 k(3))
  have g2: "grows e1 e2"
    unfolding e2_def r2_def by (rule grows_eval_authors)
  have len: "length (author_marks e2) = length (authors e)"
    using grows_length_marks [OF g2] assms(1) by (simp add: k(3))
  have "r1 = (Inr (), e1)" "r2 = (Inr (), e2)"
    using k(1) a(1) by (simp_all add: e1_def e2_def prod_eq_iff)
  then have "evaluate finditer search keyword_ratings author_ratings rate_abstract e
      = (Inr (rating e2), e2)"
    unfolding evaluate_def and_then_def r1_def [symmetric]
    by (simp add: r2_def [symmetric])
  with k(2) a(2,3) len show ?thesis
    by simp
qed

text \<open>The first two scenarios together: the keyword \<open>ai\<close> of weight 2 occurs twice
  in the title, and the fragment \<open>Smith\<close> of weight 5 is found in the name of the first
  author.\<close>

theorem evaluate_rating_witness:
  "fst (evaluate re_finditer re_search_ignorecase [(''ai'', 2)] [(''Smith'', 5)] True scenario)
     = Inr 9
   \<and> rating (snd (evaluate re_finditer re_search_ignorecase
        [(''ai'', 2)] [(''Smith'', 5)] True scenario)) = 9
   \<and> author_marks (snd (evaluate re_finditer re_search_ignorecase
        [(''ai'', 2)] [(''Smith'', 5)] True scenario)) = [True, False]"
proof -
  let ?e = "snd (evaluate re_finditer re_search_ignorecase
      [(''ai'', 2)] [(''Smith'', 5)] True scenario)"
  have f: "authors scenario = [''John Smith'', ''Jane Doe'']"
    "author_marks scenario = [False, False]"
    by (simp_all add: scenario_def Entry_init_def)
  have h1: "length (author_marks scenario) = length (authors scenario)"
    by (simp add: f)
  have h2: "\<forall>(k, w) \<in> set [(''ai'', 2 :: int)].
      0 < count_str (lower (title scenario)) (lower k) \<longrightarrow>
      \<not> isl (re_finditer (lower k) (lower (title scenario)))"
    by code_simp
  have h3: "\<forall>(a, w) \<in> set [(''Smith'', 5 :: int)].
      \<forall>name \<in> set (authors scenario). \<not> isl (re_search_ignorecase (word_pattern a) name)"
    by code_simp
  have m: "author_matches re_search_ignorecase ''Smith'' ''John Smith''"
    "\<not> author_matches re_search_ignorecase ''Smith'' ''Jane Doe''"
    by code_simp+
  have c: "count_str (lower (title scenario)) (lower ''ai'') = 2"
    "count_str (lower (abstract scenario)) (lower ''ai'') = 0"
    by code_simp+
  note inst = evaluate_rating [where e = scenario and finditer = re_finditer
      and search = re_search_ignorecase and keyword_ratings = "[(''ai'', 2)]"
      and author_ratings = "[(''Smith'', 5)]" and rate_abstract = True, OF h1 h2 h3]
  from inst
  have r: "fst (evaluate re_finditer re_search_ignorecase
        [(''ai'', 2)] [(''Smith'', 5)] True scenario) = Inr (rating ?e)"
    "rating ?e = 9" "length (author_marks ?e) = 2"
    by (simp_all add: f c m)
  from inst
  have "\<forall>j < 2. author_marks ?e ! j
      = ([False, False] ! j
         \<or> author_matches re_search_ignorecase ''Smith'' ([''John Smith'', ''Jane Doe''] ! j))"
    by (simp add: f)
  from this [rule_format, of 0] this [rule_format, of 1]
  have "author_marks ?e ! 0 = True" "author_marks ?e ! 1 = False"
    by (simp_all add: m)
  with r(3) have "author_marks ?e = [True, False]"
    by (simp add: list_eq_iff_nth_eq less_Suc_eq numeral_2_eq_2)
  with r(1,2) show ?thesis
    by simp
qed

text \<open>
  C1 (counterexample). The claim fails in two places. The marked authors are not exactly
  those that the current tables match: after an evaluation with the fragment Smith, an
  evaluation with the fragment Doe alone leaves John Smith marked, in whose name Doe does
  not occur. And the author test is a search for a pattern, not for an occurrence of the
  fragment: the fragment \<open>A. Smith\<close> does not occur in the name Al Smith, but as a
  pattern its full stop stands for any character, so the author is marked and the weight
  is added.
\<close>

theorem evaluate_marks_not_exact:
  "author_marks (snd (evaluate re_finditer re_search_ignorecase [] [(''Doe'', 1)] True
       (snd (evaluate re_finditer re_search_ignorecase [] [(''Smith'', 5)] True scenario))))
     = [True, True] \<and>
   \<not> occurs_as_whole_word ''Doe'' ''John Smith'' \<and>
   \<not> author_matches re_search_ignorecase ''Doe'' ''John Smith'' \<and>
   \<not> occurs_as_whole_word ''A. Smith'' ''Al Smith'' \<and>
   evaluate re_finditer re_search_ignorecase [] [(''A. Smith'', 5)] True survey
     = (Inr 5, survey\<lparr>author_marks := [True], rating := 5\<rparr>)"
  by code_simp


section \<open>Evaluating an entry a second time\<close>

text \<open>
  Two entries that agree on everything but their marks are evaluated in lockstep: the
  outcomes and the ratings are the same, and both receive the same new title marks and
  the same new author flags.
\<close>

lemma fold_mark_positions:
  "fold (\<lambda>pos. mark_title_position (int pos)) ps e = e\<lparr>title_marks := title_marks e @ map int ps\<rparr>"
  by (induction ps arbitrary: e) (simp_all add: mark_title_position_def)

lemma mark_spans_eq:
  "mark_spans spans e
     = e\<lparr>title_marks := title_marks e @ concat (map (\<lambda>se. map int [fst se..<snd se]) spans)\<rparr>"
  unfolding mark_spans_def
  by (induction spans arbitrary: e) (simp_all add: mark_span_def fold_mark_positions)

lemma map2_or_False: "map2 (\<or>) xs (replicate (length xs) False) = xs"
  by (induction xs) simp_all

lemma map2_False_or: "map2 (\<or>) (replicate (length bs) False) bs = bs"
  by (induction bs) simp_all

lemma map2_or_assoc: "map2 (\<or>) (map2 (\<or>) xs ys) zs = map2 (\<or>) xs (map2 (\<or>) ys zs)"
proof (induction xs arbitrary: ys zs)
  case Nil
  show ?case by simp
next
  case (Cons x xs)
  then show ?case by (cases ys; cases zs) simp_all
qed

lemma map2_or_update:
  "j < length xs \<Longrightarrow> length xs = n \<Longrightarrow>
   map2 (\<or>) xs ((replicate n False)[j := True]) = xs[j := True]"
  by (auto simp: list_eq_iff_nth_eq nth_list_update)

lemma ahead_keep:
  assumes "length (author_marks e') = length (author_marks e)"
    and "title_marks u = title_marks e @ ms" and "title_marks u' = title_marks e' @ ms"
    and "author_marks u = author_marks e" and "author_marks u' = author_marks e'"
  shows "ahead e e' u u'"
proof -
  let ?bs = "replicate (length (author_marks e)) False"
  have "author_marks u = map2 (\<or>) (author_marks e) ?bs"
    by (simp add: assms(4) map2_or_False)
  moreover have "author_marks u' = map2 (\<or>) (author_marks e') ?bs"
    using map2_or_False [of "author_marks e'"] by (simp add: assms(1,5))
  ultimately show ?thesis
    unfolding ahead_def using assms(2,3) by (intro conjI exI [of _ ms] exI [of _ ?bs]) simp_all
qed

lemma ahead_rating:
  "length (author_marks e') = length (author_marks e) \<Longrightarrow>
   ahead e e' (e\<lparr>rating := r\<rparr>) (e'\<lparr>rating := r'\<rparr>)"
  by (rule ahead_keep [where ms = "[]"]) simp_all

lemma ahead_trans:
  assumes "ahead e e' u u'" and "ahead u u' v v'"
  shows "ahead e e' v v'"
proof -
  from assms(1) obtain ms1 bs1 where one:
    "title_marks u = title_marks e @ ms1" "title_marks u' = title_marks e' @ ms1"
    "length bs1 = length (author_marks e)"
    "author_marks u = map2 (\<or>) (author_marks e) bs1"
    "author_marks u' = map2 (\<or>) (author_marks e') bs1"
    unfolding ahead_def by blast
  from assms(2) obtain ms2 bs2 where two:
    "title_marks v = title_marks u @ ms2" "title_marks v' = title_marks u' @ ms2"
    "length bs2 = length (author_marks u)"
    "author_marks v = map2 (\<or>) (author_marks u) bs2"
    "author_marks v' = map2 (\<or>) (author_marks u') bs2"
    unfolding ahead_def by blast
  have "length (map2 (\<or>) bs1 bs2) = length (author_marks e)"
    by (simp add: one(3,4) two(3))
  moreover have "author_marks v = map2 (\<or>) (author_marks e) (map2 (\<or>) bs1 bs2)"
    "author_marks v' = map2 (\<or>) (author_marks e') (map2 (\<or>) bs1 bs2)"
    by (simp_all only: two(4,5) one(4,5) map2_or_assoc)
  ultimately show ?thesis
    unfolding ahead_def using one(1,2) two(1,2)
    by (intro conjI exI [of _ "ms1 @ ms2"] exI [of _ "map2 (\<or>) bs1 bs2"]) simp_all
qed

lemma ahead_mark_author:
  assumes "length (author_marks e') = length (author_marks e)" and "j < length (author_marks e)"
  shows "ahead e e' (e\<lparr>author_marks := (author_marks e)[j := True]\<rparr>)
    (e'\<lparr>author_marks := (author_marks e')[j := True]\<rparr>)"
proof -
  let ?bs = "(replicate (length (author_marks e)) False)[j := True]"
  have "(author_marks e)[j := True] = map2 (\<or>) (author_marks e) ?bs"
    using map2_or_update [OF assms(2) refl] by simp
  moreover have "(author_marks e')[j := True] = map2 (\<or>) (author_marks e') ?bs"
    using map2_or_update [of j "author_marks e'" "length (author_marks e)"] assms by simp
  ultimately show ?thesis
    unfolding ahead_def by (intro conjI exI [of _ "[]"] exI [of _ ?bs]) simp_all
qed

lemma alike_title_marks:
  "alike e e' \<Longrightarrow> alike (e\<lparr>title_marks := title_marks e @ ms\<rparr>) (e'\<lparr>title_marks := title_marks e' @ ms\<rparr>)"
  by (simp add: alike_def same_input_def)

lemma alike_rating:
  "alike e e' \<Longrightarrow> alike (e\<lparr>rating := rating e + c\<rparr>) (e'\<lparr>rating := rating e' + c\<rparr>)"
  by (simp add: alike_def same_input_def)

lemma alike_fields:
  assumes "alike e e'"
  shows "title e' = title e" "abstract e' = abstract e" "authors e' = authors e"
    "length (author_marks e') = length (author_marks e)" "rating e' = rating e"
  using assms by (simp_all add: alike_def same_input_def)

lemma in_step_same: "alike e e' \<Longrightarrow> in_step e e' (r, e) (r, e')"
  by (simp add: in_step_def alike_fields(4) ahead_keep [where ms = "[]"])

lemma in_step_rating:
  "alike e e' \<Longrightarrow> in_step e e' (r, e\<lparr>rating := rating e + c\<rparr>) (r, e'\<lparr>rating := rating e' + c\<rparr>)"
  by (simp add: in_step_def alike_rating alike_fields(4) ahead_rating)

lemma in_step_shift:
  assumes "ahead e e' u u'" and "in_step u u' r r'"
  shows "in_step e e' r r'"
  using assms ahead_trans [OF assms(1)] by (simp add: in_step_def)

lemma in_step_and_then:
  assumes "in_step e e' m m'"
    and "\<And>v e1 e1'. alike e1 e1' \<Longrightarrow> in_step e1 e1' (f v e1) (f v e1')"
  shows "in_step e e' (and_then m f) (and_then m' f)"
proof -
  obtain r e1 where m: "m = (r, e1)" by (cases m)
  obtain r' e1' where m': "m' = (r', e1')" by (cases m')
  from assms(1) have rr: "r' = r" and al: "alike e1 e1'" and ah: "ahead e e' e1 e1'"
    by (simp_all add: in_step_def m m')
  show ?thesis
  proof (cases r)
    case (Inl err)
    with al ah show ?thesis by (simp add: in_step_def and_then_def m m' rr)
  next
    case (Inr v)
    from in_step_shift [OF ah assms(2) [OF al, of v]] show ?thesis
      by (simp add: and_then_def m m' rr Inr)
  qed
qed

lemma in_step_mark_rounds:
  "alike e e' \<Longrightarrow>
   in_step e e' (mark_rounds finditer n keyword e) (mark_rounds finditer n keyword e')"
proof (induction n arbitrary: e e')
  case 0
  then show ?case by (simp add: in_step_same)
next
  case (Suc n)
  note t = alike_fields(1) [OF Suc.prems]
  show ?case
  proof (cases "finditer keyword (lower (title e))")
    case (Inl err)
    with Suc.prems show ?thesis by (simp add: t in_step_same)
  next
    case (Inr ms)
    let ?z = "zip (map fst ms) (map snd ms)"
    have "in_step (mark_spans ?z e) (mark_spans ?z e')
        (mark_rounds finditer n keyword (mark_spans ?z e))
        (mark_rounds finditer n keyword (mark_spans ?z e'))"
      by (rule Suc.IH) (simp add: mark_spans_eq alike_title_marks [OF Suc.prems])
    moreover have "ahead e e' (mark_spans ?z e) (mark_spans ?z e')"
      by (rule ahead_keep [OF alike_fields(4) [OF Suc.prems]]) (simp_all add: mark_spans_eq)
    ultimately have "in_step e e'
        (mark_rounds finditer n keyword (mark_spans ?z e))
        (mark_rounds finditer n keyword (mark_spans ?z e'))"
      by (rule in_step_shift [rotated])
    then show ?thesis by (simp add: t Inr)
  qed
qed

lemma in_step_mark_title_keyword:
  "alike e e' \<Longrightarrow>
   in_step e e' (mark_title_keyword finditer keyword e) (mark_title_keyword finditer keyword e')"
  by (simp add: mark_title_keyword_def alike_fields(1) in_step_mark_rounds)

lemma in_step_mark_author:
  assumes "alike e e'"
  shows "in_step e e' (mark_author number e) (mark_author number e')"
proof -
  note len = alike_fields(4) [OF assms]
  define j where "j = (if number < 0 then int (length (author_marks e)) + number else number)"
  have m: "mark_author number e
      = (if 0 \<le> j \<and> j < int (length (author_marks e))
         then (Inr (), e\<lparr>author_marks := (author_marks e)[nat j := True]\<rparr>)
         else (Inl IndexError, e))"
    "mark_author number e'
      = (if 0 \<le> j \<and> j < int (length (author_marks e))
         then (Inr (), e'\<lparr>author_marks := (author_marks e')[nat j := True]\<rparr>)
         else (Inl IndexError, e'))"
    by (simp_all add: mark_author_def Let_def j_def len)
  show ?thesis
  proof (cases "0 \<le> j \<and> j < int (length (author_marks e))")
    case True
    then have "nat j < length (author_marks e)" by linarith
    from ahead_mark_author [OF len this] assms
    have "in_step e e' (Inr (), e\<lparr>author_marks := (author_marks e)[nat j := True]\<rparr>)
        (Inr (), e'\<lparr>author_marks := (author_marks e')[nat j := True]\<rparr>)"
      by (simp add: in_step_def alike_def same_input_def)
    then show ?thesis
      by (simp only: m if_P [OF True])
  next
    case False
    from in_step_same [OF assms] show ?thesis
      by (simp only: m if_not_P [OF False])
  qed
qed

lemma in_step_eval_keywords:
  "alike e e' \<Longrightarrow>
   in_step e e' (eval_keywords finditer kws rate_abstract e)
     (eval_keywords finditer kws rate_abstract e')"
proof (induction kws arbitrary: e e')
  case Nil
  then show ?case by (simp add: in_step_same)
next
  case (Cons kw kws)
  obtain k w where kw: "kw = (k, w)" by (cases kw)
  note t = alike_fields(1) [OF Cons.prems]
  let ?c = "count_str (lower (title e)) (lower k)"
  have first: "in_step e e'
      (if 0 < ?c
       then and_then (mark_title_keyword finditer (lower k) e)
              (\<lambda>_ e'. (Inr (), e'\<lparr>rating := rating e' + int ?c * w\<rparr>))
       else (Inr (), e))
      (if 0 < ?c
       then and_then (mark_title_keyword finditer (lower k) e')
              (\<lambda>_ e'. (Inr (), e'\<lparr>rating := rating e' + int ?c * w\<rparr>))
       else (Inr (), e'))"
  proof (cases "0 < ?c")
    case True
    have "in_step e e'
        (and_then (mark_title_keyword finditer (lower k) e)
           (\<lambda>_ e'. (Inr (), e'\<lparr>rating := rating e' + int ?c * w\<rparr>)))
        (and_then (mark_title_keyword finditer (lower k) e')
           (\<lambda>_ e'. (Inr (), e'\<lparr>rating := rating e' + int ?c * w\<rparr>)))"
      by (rule in_step_and_then [OF in_step_mark_title_keyword [OF Cons.prems]])
        (rule in_step_rating)
    with True show ?thesis by simp
  next
    case False
    with Cons.prems show ?thesis by (simp add: in_step_same)
  qed
  have rest: "in_step e1 e1'
      (eval_keywords finditer kws rate_abstract
        (if rate_abstract
         then e1\<lparr>rating := rating e1 + int (count_str (lower (abstract e1)) (lower k)) * w\<rparr>
         else e1))
      (eval_keywords finditer kws rate_abstract
        (if rate_abstract
         then e1'\<lparr>rating := rating e1' + int (count_str (lower (abstract e1')) (lower k)) * w\<rparr>
         else e1'))"
    if al: "alike e1 e1'" for e1 e1'
  proof (cases rate_abstract)
    case True
    let ?r = "int (count_str (lower (abstract e1)) (lower k)) * w"
    have "in_step (e1\<lparr>rating := rating e1 + ?r\<rparr>) (e1'\<lparr>rating := rating e1' + ?r\<rparr>)
        (eval_keywords finditer kws rate_abstract (e1\<lparr>rating := rating e1 + ?r\<rparr>))
        (eval_keywords finditer kws rate_abstract (e1'\<lparr>rating := rating e1' + ?r\<rparr>))"
      by (rule Cons.IH) (rule alike_rating [OF al])
    with ahead_rating [OF alike_fields(4) [OF al]]
    have "in_step e1 e1'
        (eval_keywords finditer kws rate_abstract (e1\<lparr>rating := rating e1 + ?r\<rparr>))
        (eval_keywords finditer kws rate_abstract (e1'\<lparr>rating := rating e1' + ?r\<rparr>))"
      by (rule in_step_shift)
    with True show ?thesis by (simp add: alike_fields(2) [OF al])
  next
    case False
    with Cons.IH [OF al] show ?thesis by simp
  qed
  from in_step_and_then [OF first, of "\<lambda>_ e1. eval_keywords finditer kws rate_abstract
        (if rate_abstract
         then e1\<lparr>rating := rating e1 + int (count_str (lower (abstract e1)) (lower k)) * w\<rparr>
         else e1)"] rest
  show ?case
    by (simp add: kw Let_def t)
qed

lemma in_step_eval_author:
  "alike e e' \<Longrightarrow>
   in_step e e' (eval_author search author w ias e) (eval_author search author w ias e')"
proof (induction ias arbitrary: e e')
  case Nil
  then show ?case by (simp add: in_step_same)
next
  case (Cons ia ias)
  obtain i a where ia: "ia = (i, a)" by (cases ia)
  have cont: "in_step e1 e1'
      (eval_author search author w ias (e1\<lparr>rating := rating e1 + w\<rparr>))
      (eval_author search author w ias (e1'\<lparr>rating := rating e1' + w\<rparr>))"
    if al: "alike e1 e1'" for e1 e1'
    by (rule in_step_shift [OF ahead_rating [OF alike_fields(4) [OF al]]
          Cons.IH [OF alike_rating [OF al]]])
  show ?case
  proof (cases "search (word_pattern author) a")
    case (Inl err)
    with Cons.prems show ?thesis by (simp add: ia in_step_same)
  next
    case (Inr m)
    show ?thesis
    proof (cases m)
      case None
      with Inr Cons.IH [OF Cons.prems] show ?thesis by (simp add: ia)
    next
      case (Some sp)
      from in_step_and_then [OF in_step_mark_author [OF Cons.prems, of "int i"],
          of "\<lambda>_ e'. eval_author search author w ias (e'\<lparr>rating := rating e' + w\<rparr>)"] cont
      show ?thesis by (simp add: ia Inr Some)
    qed
  qed
qed

lemma in_step_eval_authors:
  "alike e e' \<Longrightarrow> in_step e e' (eval_authors search auths e) (eval_authors search auths e')"
proof (induction auths arbitrary: e e')
  case Nil
  then show ?case by (simp add: in_step_same)
next
  case (Cons aw auths)
  obtain a w where aw: "aw = (a, w)" by (cases aw)
  from in_step_and_then [OF in_step_eval_author [OF Cons.prems, of search a w "enumerate 0 (authors e)"],
      of "\<lambda>_ e'. eval_authors search auths e'"] Cons.IH
  show ?case
    by (simp add: aw alike_fields(3) [OF Cons.prems])
qed

lemma in_step_evaluate:
  assumes "same_input e e'"
  shows "in_step e e' (evaluate finditer search kws auths rate_abstract e)
    (evaluate finditer search kws auths rate_abstract e')"
proof -
  have al: "alike (e\<lparr>rating := 0\<rparr>) (e'\<lparr>rating := 0\<rparr>)"
    using assms by (simp add: alike_def same_input_def)
  have len: "length (author_marks e') = length (author_marks e)"
    using assms by (simp add: same_input_def)
  have last: "in_step e2 e2' (Inr (rating e2), e2) (Inr (rating e2'), e2')"
    if "alike e2 e2'" for e2 e2'
    using that in_step_same [OF that, of "Inr (rating e2)"] by (simp add: alike_fields(5))
  have "in_step (e\<lparr>rating := 0\<rparr>) (e'\<lparr>rating := 0\<rparr>)
      (evaluate finditer search kws auths rate_abstract e)
      (evaluate finditer search kws auths rate_abstract e')"
    unfolding evaluate_def
    by (intro in_step_and_then in_step_eval_keywords in_step_eval_authors al last)
  with ahead_rating [OF len] show ?thesis
    by (rule in_step_shift)
qed

lemma same_input_evaluate:
  "same_input e (snd (evaluate finditer search kws auths rate_abstract e))"
  using grows_evaluate [of e finditer search kws auths rate_abstract]
  by (simp add: grows_def same_input_def)

text \<open>
  C7. Calling \<open>evaluate\<close> twice in succession on the same entry, with the same rating
  tables, gives the same outcome (the returned rating, or the same exception) and leaves
  the same rating in the entry as calling it once.
\<close>

theorem evaluate_twice:
  "fst (evaluate finditer search kws auths rate_abstract
         (snd (evaluate finditer search kws auths rate_abstract e)))
     = fst (evaluate finditer search kws auths rate_abstract e) \<and>
   rating (snd (evaluate finditer search kws auths rate_abstract
         (snd (evaluate finditer search kws auths rate_abstract e))))
     = rating (snd (evaluate finditer search kws auths rate_abstract e))"
  using in_step_evaluate [OF same_input_evaluate [of e finditer search kws auths rate_abstract],
      of finditer search kws auths rate_abstract]
  by (simp add: in_step_def alike_def)

section \<open>Title marks\<close>

text \<open>
  C3 (counterexample). \<open>title_marks\<close> is a list and \<open>mark_title_position\<close> appends to
  it: marking position 3 twice stores it twice, and a second evaluation with the same
  table doubles the marks of the first.
\<close>

theorem title_marks_duplicates:
  "title_marks (mark_title_position 3 (mark_title_position 3 scenario)) = [3, 3] \<and>
   \<not> distinct (title_marks (mark_title_position 3 (mark_title_position 3 scenario))) \<and>
   evaluate re_finditer re_search_ignorecase [(''research'', 1)] [] False scenario
     = (Inr 1, scenario\<lparr>title_marks := [3, 4, 5, 6, 7, 8, 9, 10], rating := 1\<rparr>) \<and>
   evaluate re_finditer re_search_ignorecase [(''research'', 1)] [] False
       (snd (evaluate re_finditer re_search_ignorecase [(''research'', 1)] [] False scenario))
     = (Inr 1, scenario\<lparr>title_marks := [3, 4, 5, 6, 7, 8, 9, 10, 3, 4, 5, 6, 7, 8, 9, 10],
          rating := 1\<rparr>)"
  by code_simp

text \<open>
  C3 (as amended). \<open>title_marks\<close> is a list that may hold a position more than once, and
  only the set of its positions is left alone by repeated marking.
  \<open>mark_title_position\<close> appends the position, also when it is already present, and then
  the set of marked positions is unchanged. \<open>evaluate\<close> keeps the marks it finds and
  appends to them; a second \<open>evaluate\<close> with the same tables appends once more what the
  first one appended, so the list grows and the set of marked positions is unchanged.
\<close>

theorem title_marks_appended:
  "title_marks (mark_title_position p e) = title_marks e @ [p] \<and>
   (p \<in> set (title_marks e) \<longrightarrow>
      set (title_marks (mark_title_position p e)) = set (title_marks e)) \<and>
   prefix (title_marks e)
     (title_marks (snd (evaluate finditer search kws auths rate_abstract e))) \<and>
   title_marks (snd (evaluate finditer search kws auths rate_abstract
           (snd (evaluate finditer search kws auths rate_abstract e))))
     = title_marks (snd (evaluate finditer search kws auths rate_abstract e))
       @ drop (length (title_marks e))
           (title_marks (snd (evaluate finditer search kws auths rate_abstract e))) \<and>
   set (title_marks (snd (evaluate finditer search kws auths rate_abstract
           (snd (evaluate finditer search kws auths rate_abstract e)))))
     = set (title_marks (snd (evaluate finditer search kws auths rate_abstract e)))"
proof -
  from in_step_evaluate [OF same_input_evaluate [of e finditer search kws auths rate_abstract],
      of finditer search kws auths rate_abstract]
  obtain ms where
    "title_marks (snd (evaluate finditer search kws auths rate_abstract e)) = title_marks e @ ms"
    "title_marks (snd (evaluate finditer search kws auths rate_abstract
        (snd (evaluate finditer search kws auths rate_abstract e))))
      = title_marks (snd (evaluate finditer search kws auths rate_abstract e)) @ ms"
    unfolding in_step_def ahead_def by blast
  then show ?thesis
    by (auto simp: mark_title_position_def)
qed

theorem title_marks_appended_witness:
  "title_marks (mark_title_position 3 (mark_title_position 3 scenario)) = [3, 3] \<and>
   3 \<in> set (title_marks (mark_title_position 3 scenario)) \<and>
   set (title_marks (mark_title_position 3 (mark_title_position 3 scenario))) = {3} \<and>
   title_marks (snd (evaluate re_finditer re_search_ignorecase [(''research'', 1)] [] False
       (snd (evaluate re_finditer re_search_ignorecase [(''research'', 1)] [] False
          (mark_title_position 3 scenario)))))
     = [3, 3, 4, 5, 6, 7, 8, 9, 10, 3, 4, 5, 6, 7, 8, 9, 10]"
proof -
  have m: "title_marks (mark_title_position 3 scenario) = [3]"
    by code_simp
  have t: "title_marks (snd (evaluate re_finditer re_search_ignorecase
        [(''research'', 1)] [] False (mark_title_position 3 scenario)))
      = [3, 3, 4, 5, 6, 7, 8, 9, 10]"
    by code_simp
  from title_marks_appended [of 3 "mark_title_position 3 scenario" re_finditer
      re_search_ignorecase "[(''research'', 1)]" "[]" False]
  show ?thesis
    by (simp add: m t)
qed

section \<open>Marks across evaluations\<close>

text \<open>
  C4 (counterexample). \<open>evaluate\<close> resets the rating only. An entry evaluated with a
  keyword and an author fragment, and then with empty tables, has rating 0 and still
  carries the title marks and the author flag of the first evaluation.
\<close>

theorem evaluate_empty_keeps_marks:
  "fst (evaluate re_finditer re_search_ignorecase [] [] True
       (snd (evaluate re_finditer re_search_ignorecase
          [(''ai'', 2)] [(''Smith'', 5)] True scenario)))
     = Inr 0 \<and>
   title_marks (snd (evaluate re_finditer re_search_ignorecase [] [] True
       (snd (evaluate re_finditer re_search_ignorecase
          [(''ai'', 2)] [(''Smith'', 5)] True scenario))))
     = [0, 1, 15, 16, 0, 1, 15, 16] \<and>
   author_marks (snd (evaluate re_finditer re_search_ignorecase [] [] True
       (snd (evaluate re_finditer re_search_ignorecase
          [(''ai'', 2)] [(''Smith'', 5)] True scenario))))
     = [True, False]"
  by code_simp

text \<open>
  C4 (as amended). \<open>evaluate\<close> resets the rating and no other annotation. What the
  call returns or raises, and the rating it leaves, are those of the same call on the
  entry with its annotations as the constructor sets them: the rating reflects only the
  tables of the current call. The title marks after the call are the marks before the
  call followed by the marks that the call gives the unmarked entry, and an author is
  flagged after the call when it was flagged before or the call flags it in the unmarked
  entry. With empty tables the call returns 0 and changes nothing but the rating, so an
  entry evaluated before keeps its marks.
\<close>

theorem evaluate_resets_rating_only:
  "evaluate finditer search [] [] rate_abstract e = (Inr 0, e\<lparr>rating := 0\<rparr>) \<and>
   fst (evaluate finditer search kws auths rate_abstract e)
     = fst (evaluate finditer search kws auths rate_abstract (unmarked e)) \<and>
   rating (snd (evaluate finditer search kws auths rate_abstract e))
     = rating (snd (evaluate finditer search kws auths rate_abstract (unmarked e))) \<and>
   title_marks (snd (evaluate finditer search kws auths rate_abstract e))
     = title_marks e
       @ title_marks (snd (evaluate finditer search kws auths rate_abstract (unmarked e))) \<and>
   author_marks (snd (evaluate finditer search kws auths rate_abstract e))
     = map2 (\<or>) (author_marks e)
         (author_marks (snd (evaluate finditer search kws auths rate_abstract (unmarked e))))"
proof -
  let ?r = "evaluate finditer search kws auths rate_abstract e"
  let ?r' = "evaluate finditer search kws auths rate_abstract (unmarked e)"
  have "same_input e (unmarked e)"
    by (simp add: same_input_def unmarked_def)
  from in_step_evaluate [OF this, of finditer search kws auths rate_abstract]
  have o: "fst ?r' = fst ?r" and r: "rating (snd ?r') = rating (snd ?r)"
    and ah: "ahead e (unmarked e) (snd ?r) (snd ?r')"
    by (simp_all add: in_step_def alike_def)
  from ah obtain ms bs where
    t: "title_marks (snd ?r) = title_marks e @ ms" "title_marks (snd ?r') = ms"
    and a: "length bs = length (author_marks e)"
      "author_marks (snd ?r) = map2 (\<or>) (author_marks e) bs"
      "author_marks (snd ?r') = map2 (\<or>) (replicate (length (author_marks e)) False) bs"
    unfolding ahead_def by (auto simp: unmarked_def)
  from a(1,3) map2_False_or [of bs] have "author_marks (snd ?r') = bs"
    by simp
  moreover have "evaluate finditer search [] [] rate_abstract e = (Inr 0, e\<lparr>rating := 0\<rparr>)"
    by (simp add: evaluate_def and_then_def)
  ultimately show ?thesis
    using o r t a(2) by simp
qed


section \<open>The ranker\<close>

lemma mset_sorted_py: "mset (sorted_py key reverse xs) = mset xs"
  by (simp add: sorted_py_def)

lemma sorted_py_ordered:
  "sorted_wrt (\<lambda>a b. if reverse then key b \<le> key a else key a \<le> key b) (sorted_py key reverse xs)"
proof (cases reverse)
  case True
  have "sorted (map key (sort_key key (rev xs)))"
    by (rule sorted_sort_key)
  then have "sorted_wrt (\<lambda>a b. key a \<le> key b) (sort_key key (rev xs))"
    by (simp add: sorted_map)
  with True show ?thesis
    by (simp add: sorted_py_def sorted_wrt_rev)
next
  case False
  have "sorted (map key (sort_key key xs))"
    by (rule sorted_sort_key)
  with False show ?thesis
    by (simp add: sorted_py_def sorted_map)
qed

lemma sorted_py_stable:
  "filter (\<lambda>x. key x = k) (sorted_py key reverse xs) = filter (\<lambda>x. key x = k) xs"
proof (cases reverse)
  case True
  have "filter (\<lambda>x. key x = k) (rev (sort_key key (rev xs)))
      = rev (filter (\<lambda>x. key x = k) (sort_key key (rev xs)))"
    by (simp add: rev_filter)
  also have "\<dots> = rev (filter (\<lambda>x. key x = k) (rev xs))"
    by (simp only: sort_key_stable)
  also have "\<dots> = filter (\<lambda>x. key x = k) xs"
    by (simp add: rev_filter)
  finally show ?thesis using True by (simp add: sorted_py_def)
next
  case False
  then show ?thesis by (simp add: sorted_py_def sort_key_stable)
qed

lemma sort_entries_unbounded:
  "sort_entries entries rating_min reverse None
     = sorted_py rating (\<not> reverse) (filter (\<lambda>e. rating_min \<le> rating e) entries)"
  by (simp add: sort_entries_def slice_to_def)

lemma sort_entries_bounded:
  "sort_entries entries rating_min reverse (Some n)
     = (if 0 \<le> n then take (nat n) (sort_entries entries rating_min reverse None)
        else sort_entries entries rating_min reverse None)"
  by (simp add: sort_entries_def slice_to_def)

text \<open>
  C2. \<open>sort_entries\<close> returns exactly the entries whose rating is at least
  \<open>rating_min\<close> (as a multiset), ordered by rating, descending when \<open>reverse\<close> is
  false and ascending when it is true; entries of equal rating keep their order in the
  input (for every rating \<open>k\<close> the entries of rating \<open>k\<close> form the same list before
  and after); the result is cut to its first \<open>len\<close> entries when \<open>len\<close> is given and
  not negative, and is the whole list when \<open>len\<close> is absent or negative.
\<close>

theorem sort_entries_correct:
  "(let kept = filter (\<lambda>e. rating_min \<le> rating e) entries;
        full = sort_entries entries rating_min reverse None
    in mset full = mset kept
       \<and> sorted_wrt (\<lambda>a b. if reverse then rating a \<le> rating b else rating b \<le> rating a) full
       \<and> (\<forall>k. filter (\<lambda>e. rating e = k) full = filter (\<lambda>e. rating e = k) kept)
       \<and> sort_entries entries rating_min reverse len
           = (case len of
                None \<Rightarrow> full
              | Some n \<Rightarrow> if 0 \<le> n then take (nat n) full else full))"
proof -
  let ?kept = "filter (\<lambda>e. rating_min \<le> rating e) entries"
  let ?full = "sort_entries entries rating_min reverse None"
  have "mset ?full = mset ?kept"
    by (simp only: sort_entries_unbounded mset_sorted_py)
  moreover have "sorted_wrt (\<lambda>a b. if reverse then rating a \<le> rating b else rating b \<le> rating a) ?full"
    using sorted_py_ordered [of "\<not> reverse" rating ?kept]
    by (cases reverse) (simp_all add: sort_entries_unbounded)
  moreover have "\<forall>k. filter (\<lambda>e. rating e = k) ?full = filter (\<lambda>e. rating e = k) ?kept"
    by (simp only: sort_entries_unbounded sorted_py_stable) simp
  moreover have "sort_entries entries rating_min reverse len
      = (case len of None \<Rightarrow> ?full | Some n \<Rightarrow> if 0 \<le> n then take (nat n) ?full else ?full)"
    by (cases len) (simp_all only: sort_entries_bounded option.case)
  ultimately show ?thesis
    unfolding Let_def by blast
qed

text \<open>The ranking scenarios: ratings 5, 1, 4, 3 with \<open>rating_min = 3\<close>.\<close>

theorem sort_entries_correct_witness:
  "sort_entries [paper 5, paper 1, paper 4, paper 3] 3 False (Some 2) = [paper 5, paper 4]
   \<and> sort_entries [paper 5, paper 1, paper 4, paper 3] 3 True None = [paper 3, paper 4, paper 5]
   \<and> sort_entries [paper 5, paper 1, paper 4, paper 3] 3 False (Some (- 1)) = [paper 5, paper 4, paper 3]"
proof -
  have r: "rating (paper a) = a" for a
    by (simp add: paper_def)
  have full: "sort_entries [paper 5, paper 1, paper 4, paper 3] 3 False None = [paper 5, paper 4, paper 3]"
    by (simp add: sort_entries_unbounded sorted_py_def r)
  have full': "sort_entries [paper 5, paper 1, paper 4, paper 3] 3 True None = [paper 3, paper 4, paper 5]"
    by (simp add: sort_entries_unbounded sorted_py_def r)
  show ?thesis
    using sort_entries_correct [of 3 "[paper 5, paper 1, paper 4, paper 3]" False "Some 2"]
      sort_entries_correct [of 3 "[paper 5, paper 1, paper 4, paper 3]" False "Some (- 1)"]
    by (simp add: Let_def full full')
qed

text \<open>
  C10. \<open>sort_entries\<close> only filters, reorders and slices. The function reads the
  ratings and writes nothing: it has no entry and no list among its results but the
  returned list, and every entry of that list is an entry of the input, with all its
  fields, occurring at most as often as in the input.
\<close>

theorem sort_entries_frame:
  "mset (sort_entries entries rating_min reverse len) \<subseteq># mset entries"
proof -
  have "mset (sort_entries entries rating_min reverse None) \<subseteq># mset entries"
    by (simp add: sort_entries_unbounded mset_sorted_py)
  moreover have "mset (take n xs) \<subseteq># mset xs" for n and xs :: "entry list"
    by (metis append_take_drop_id mset_append mset_subset_eq_add_left)
  ultimately show ?thesis
    by (cases len) (auto simp: sort_entries_bounded intro: subset_mset.order_trans)
qed


section \<open>One flag per author\<close>

lemma author_invariant_same_input:
  "same_input e e' \<Longrightarrow> author_invariant e \<Longrightarrow> author_invariant e'"
  by (simp add: author_invariant_def same_input_def)

lemma author_invariant_grows:
  "grows e e' \<Longrightarrow> author_invariant e \<Longrightarrow> author_invariant e'"
  by (simp add: author_invariant_def grows_def same_input_def)

lemma sort_entries_subset: "set (sort_entries es rating_min reverse len) \<subseteq> set es"
proof -
  have "mset (sort_entries es rating_min reverse None) \<subseteq># mset es"
    by (simp add: sort_entries_unbounded mset_sorted_py)
  moreover have "mset (take n xs) \<subseteq># mset xs" for n and xs :: "entry list"
    by (metis append_take_drop_id mset_append mset_subset_eq_add_left)
  ultimately have "mset (sort_entries es rating_min reverse len) \<subseteq># mset es"
    by (cases len) (auto simp: sort_entries_bounded intro: subset_mset.order_trans)
  from set_mset_mono [OF this] show ?thesis by simp
qed

lemma author_invariant_evaluate_entries:
  "list_all author_invariant es \<Longrightarrow>
   list_all author_invariant (snd (evaluate_entries finditer search es kws auths rate_abstract))"
proof (induction es)
  case Nil
  show ?case by simp
next
  case (Cons e es)
  have "author_invariant (snd (evaluate finditer search kws auths rate_abstract e))"
    using Cons.prems same_input_evaluate [of e finditer search kws auths rate_abstract]
    by (auto intro: author_invariant_same_input)
  with Cons show ?case
    by (auto split: prod.splits sum.splits)
qed

text \<open>
  C8. An entry has one author flag per author when it is constructed, and every operation
  keeps it so: \<open>mark_title_position\<close>, \<open>mark_title_keyword\<close>, \<open>mark_author\<close> and
  \<open>evaluate\<close> (whether they return or raise), \<open>evaluate_entries\<close> on a list of such
  entries, and \<open>sort_entries\<close>, whose result holds entries of its input.
\<close>

theorem author_marks_invariant:
  "author_invariant (Entry_init ident ttl auths abstr submitted updated categ number) \<and>
   (author_invariant e \<longrightarrow>
      author_invariant (mark_title_position p e) \<and>
      author_invariant (snd (mark_title_keyword finditer keyword e)) \<and>
      author_invariant (snd (mark_author i e)) \<and>
      author_invariant
        (snd (evaluate finditer search keyword_ratings author_ratings rate_abstract e))) \<and>
   (list_all author_invariant es \<longrightarrow>
      list_all author_invariant
        (snd (evaluate_entries finditer search es keyword_ratings author_ratings rate_abstract)) \<and>
      list_all author_invariant (sort_entries es rating_min reverse len))"
proof -
  have "author_invariant (Entry_init ident ttl auths abstr submitted updated categ number)"
    by (simp add: author_invariant_def Entry_init_def)
  moreover have "author_invariant (mark_title_position p e)"
    "author_invariant (snd (mark_title_keyword finditer keyword e))"
    "author_invariant (snd (mark_author i e))"
    "author_invariant
      (snd (evaluate finditer search keyword_ratings author_ratings rate_abstract e))"
    if "author_invariant e"
    using that grows_mark_title_position [of e p]
      grows_mark_title_keyword [of e finditer keyword] grows_mark_author [of e i]
      same_input_evaluate [of e finditer search keyword_ratings author_ratings rate_abstract]
    by (auto intro: author_invariant_grows author_invariant_same_input)
  moreover have "list_all author_invariant (sort_entries es rating_min reverse len)"
    if "list_all author_invariant es"
  proof -
    from that sort_entries_subset [of es rating_min reverse len] show ?thesis
      by (auto simp: list_all_iff)
  qed
  ultimately show ?thesis
    using author_invariant_evaluate_entries
      [of es finditer search keyword_ratings author_ratings rate_abstract]
    by blast
qed

theorem author_marks_invariant_witness:
  "author_invariant scenario \<and>
   author_invariant (mark_title_position 3 scenario) \<and>
   author_invariant (snd (mark_title_keyword re_finditer ''ai'' scenario)) \<and>
   author_invariant (snd (mark_author 1 scenario)) \<and>
   author_invariant (snd (evaluate re_finditer re_search_ignorecase
       [(''ai'', 2)] [(''Smith'', 5)] True scenario)) \<and>
   list_all author_invariant
     (snd (evaluate_entries re_finditer re_search_ignorecase
        [scenario] [(''ai'', 2)] [(''Smith'', 5)] True)) \<and>
   list_all author_invariant (sort_entries [scenario] (- 1) False None)"
proof -
  have s: "author_invariant scenario"
    by (simp add: author_invariant_def scenario_def Entry_init_def)
  from author_marks_invariant [of "''2101.00001''" "''AI research on AI systems''"
      "[''John Smith'', ''Jane Doe'']" "''We study learning.''" 0 0 "''cs.LG''" None
      scenario 3 re_finditer "''ai''" 1 re_search_ignorecase "[(''ai'', 2)]" "[(''Smith'', 5)]"
      True "[scenario]" "- 1" False None]
  show ?thesis
    using s by simp
qed

section \<open>The sign of the rating\<close>

lemma nonneg_and_then:
  assumes "0 \<le> rating (snd m)" and "\<And>v e1. 0 \<le> rating e1 \<Longrightarrow> 0 \<le> rating (snd (f v e1))"
  shows "0 \<le> rating (snd (and_then m f))"
  using assms by (auto simp: and_then_def split: prod.splits sum.splits)

lemma mark_title_keyword_rating:
  "rating (snd (mark_title_keyword finditer keyword e)) = rating e"
  by (simp add: mark_title_keyword_def mark_rounds_fields)

lemma mark_author_rating: "rating (snd (mark_author i e)) = rating e"
  by (simp add: mark_author_def Let_def)

lemma nonneg_eval_keywords:
  assumes "\<forall>(k, w) \<in> set kws. 0 \<le> w" and "0 \<le> rating e"
  shows "0 \<le> rating (snd (eval_keywords finditer kws rate_abstract e))"
  using assms
proof (induction kws arbitrary: e)
  case Nil
  then show ?case by simp
next
  case (Cons kw kws)
  obtain k w where kw: "kw = (k, w)" by (cases kw)
  from Cons.prems have w: "0 \<le> w" and rest: "\<forall>(k, w) \<in> set kws. 0 \<le> w"
    by (simp_all add: kw)
  show ?case
    unfolding kw eval_keywords.simps Let_def
  proof (rule nonneg_and_then, goal_cases)
    case 1
    show ?case
      using w Cons.prems(2)
      by (auto simp: and_then_def mark_title_keyword_rating split: prod.splits sum.splits
          dest: arg_cong [where f = "\<lambda>r. rating (snd r)"])
  next
    case (2 v e1)
    with w have "0 \<le> rating (if rate_abstract
        then e1\<lparr>rating := rating e1 + int (count_str (lower (abstract e1)) (lower k)) * w\<rparr>
        else e1)"
      by simp
    from Cons.IH [OF rest this] show ?case .
  qed
qed

lemma nonneg_eval_author:
  assumes "0 \<le> w" and "0 \<le> rating e"
  shows "0 \<le> rating (snd (eval_author search author w ias e))"
  using assms(2)
proof (induction ias arbitrary: e)
  case Nil
  then show ?case by simp
next
  case (Cons ia ias)
  obtain i a where ia: "ia = (i, a)" by (cases ia)
  have step: "0 \<le> rating (snd (eval_author search author w ias (e1\<lparr>rating := rating e1 + w\<rparr>)))"
    if "0 \<le> rating e1" for e1
    using that assms(1) by (intro Cons.IH) simp
  show ?case
    unfolding ia
    using Cons.prems
    by (auto simp: Cons.IH mark_author_rating split: sum.splits option.splits
        intro!: nonneg_and_then step)
qed

lemma nonneg_eval_authors:
  assumes "\<forall>(a, w) \<in> set auths. 0 \<le> w" and "0 \<le> rating e"
  shows "0 \<le> rating (snd (eval_authors search auths e))"
  using assms
proof (induction auths arbitrary: e)
  case Nil
  then show ?case by simp
next
  case (Cons aw auths)
  obtain author w where aw: "aw = (author, w)" by (cases aw)
  from Cons.prems have w: "0 \<le> w" and rest: "\<forall>(a, w) \<in> set auths. 0 \<le> w"
    by (simp_all add: aw)
  show ?case
    unfolding aw eval_authors.simps
    by (rule nonneg_and_then) (rule nonneg_eval_author [OF w Cons.prems(2)], rule Cons.IH [OF rest])
qed

text \<open>
  C9 (counterexample). A weight may be negative, and then so may the rating: one author
  fragment of weight -1 that matches one author gives the evaluated entry the rating -1 of
  an entry that was never evaluated.
\<close>

theorem evaluate_negative_rating:
  "fst (evaluate re_finditer re_search_ignorecase [] [(''Smith'', - 1)] True scenario)
     = Inr (- 1) \<and>
   rating (snd (evaluate re_finditer re_search_ignorecase [] [(''Smith'', - 1)] True scenario))
     = rating scenario"
  by code_simp

text \<open>
  C9 (as amended). When no weight of the rating tables is negative, the rating of the
  entry after \<open>evaluate\<close> is not negative, whether the call returns or raises.
\<close>

theorem evaluate_nonneg:
  assumes "\<forall>(k, w) \<in> set keyword_ratings. 0 \<le> w"
    and "\<forall>(a, w) \<in> set author_ratings. 0 \<le> w"
  shows "0 \<le> rating
    (snd (evaluate finditer search keyword_ratings author_ratings rate_abstract e))"
  unfolding evaluate_def
  by (intro nonneg_and_then nonneg_eval_keywords nonneg_eval_authors assms) simp_all

theorem evaluate_nonneg_witness:
  "(0 :: int) \<le> 2 \<and> (0 :: int) \<le> 5 \<and>
   0 \<le> rating (snd (evaluate re_finditer re_search_ignorecase
       [(''ai'', 2)] [(''Smith'', 5)] True scenario))"
  using evaluate_nonneg [of "[(''ai'', 2)]" "[(''Smith'', 5)]" re_finditer re_search_ignorecase
      True scenario]
  by simp

section \<open>Keywords that are not plain words\<close>

text \<open>
  C5. The keyword is counted in the title as a plain string and then located as a
  regular expression. The title \<open>f(R) gravity\<close> holds the keyword \<open>f(R)\<close> once, so the
  entry is rated 3; but the pattern \<open>f(r)\<close> is the letter f followed by a group holding r,
  which occurs nowhere in the lowered title, and no offset of the occurrence is marked.
\<close>

theorem mark_coverage_fails:
  "count_str (lower (title gravity)) (lower ''f(R)'') = 1 \<and>
   evaluate re_finditer re_search_ignorecase [(''f(R)'', 3)] [] False gravity
     = (Inr 3, gravity\<lparr>rating := 3\<rparr>) \<and>
   title_marks (snd (evaluate re_finditer re_search_ignorecase [(''f(R)'', 3)] [] False gravity))
     = []"
  by code_simp

text \<open>
  C6. The title \<open>C*-algebras\<close> holds the keyword \<open>*-algebra\<close>, which is not a regular
  expression (nothing to repeat): \<open>evaluate\<close> raises \<open>re.error\<close>, and so does
  \<open>evaluate_entries\<close> on a list holding the entry.
\<close>

theorem evaluate_raises:
  "fst (evaluate re_finditer re_search_ignorecase [(''*-algebra'', 3)] [] False algebras)
     = Inl (ReError NothingToRepeat) \<and>
   fst (evaluate_entries re_finditer re_search_ignorecase
          [algebras] [(''*-algebra'', 3)] [] False)
     = Inl (ReError NothingToRepeat)"
  by code_simp

end
